theory Spec2Isabelle
  imports Main
begin

section \<open>Data model (types/index.ts)\<close>

text \<open>
  Source text is a \<^typ>\<open>string\<close>: a list of 8-bit characters, read as the code units of the
  JavaScript string. A \<open>Map<string, ParsedFile>\<close> is an association list in insertion order
  whose keys are pairwise different.
\<close>

record Position =
  line :: int
  column :: int

record SourceLocation =
  start :: Position
  "end" :: Position

record ParameterInfo =
  p_name :: string
  p_typeName :: string
  p_storageLocation :: "string option"

record FunctionInfo =
  f_name :: string
  f_visibility :: string
  f_stateMutability :: "string option"
  f_parameters :: "ParameterInfo list"
  f_returnParameters :: "ParameterInfo list"
  f_modifiers :: "string list"
  f_body :: string
  f_fullSource :: string
  f_location :: SourceLocation
  f_filePath :: string

record StructMember =
  m_name :: string
  m_typeName :: string

record StructInfo =
  s_name :: string
  s_members :: "StructMember list"
  s_fullSource :: string
  s_location :: SourceLocation
  s_filePath :: string
  s_contractName :: "string option"

record EnumInfo =
  e_name :: string
  e_members :: "string list"
  e_fullSource :: string
  e_location :: SourceLocation
  e_filePath :: string
  e_contractName :: "string option"

record StateVariableInfo =
  v_name :: string
  v_typeName :: string
  v_visibility :: string
  v_fullSource :: string
  v_location :: SourceLocation
  v_filePath :: string
  v_contractName :: string

datatype ContractKind = KContract | KInterface | KLibrary | KAbstract

text \<open>
  \<open>baseContracts\<close> is read by the inheritance resolver (\<open>contract.baseContracts\<close>): the
  declared base names, in declaration order.
\<close>

record ContractInfo =
  c_name :: string
  c_kind :: ContractKind
  c_functions :: "FunctionInfo list"
  c_structs :: "StructInfo list"
  c_enums :: "EnumInfo list"
  c_stateVariables :: "StateVariableInfo list"
  c_baseContracts :: "string list"
  c_location :: SourceLocation
  c_filePath :: string

record ImportInfo =
  i_path :: string
  i_absolutePath :: "string option"
  i_symbols :: "string list"

record ParsedFile =
  filePath :: string
  contracts :: "ContractInfo list"
  pf_imports :: "ImportInfo list"
  pf_pragmas :: "string list"

type_synonym Workspace = "(string \<times> ParsedFile) list"

datatype TypeKind = KStruct | KEnum | KContractT | KInterfaceT | KLibraryT

datatype Definition = StructDef StructInfo | EnumDef EnumInfo

record TypeReference =
  t_name :: string
  t_kind :: TypeKind
  t_definition :: "Definition option"

record FunctionCallInfo =
  fc_name :: string
  fc_expression :: string
  fc_arguments :: "string list"
  fc_location :: SourceLocation
  fc_resolvedFunction :: "FunctionInfo option"

section \<open>Loops with an early return, and strings\<close>

text \<open>
  \<open>for (const x of xs) { const r = f(x); if (r) return r; } return null\<close>: the first
  result that is not null.
\<close>

fun firstSome :: "('a \<Rightarrow> 'b option) \<Rightarrow> 'a list \<Rightarrow> 'b option" where
  "firstSome f [] = None"
| "firstSome f (x # xs) = (case f x of Some y \<Rightarrow> Some y | None \<Rightarrow> firstSome f xs)"

text \<open>\<open>s.split(sep)\<close> for a one-character separator: never empty, \<open>''''.split(sep) = ['''']\<close>.\<close>

fun split :: "char \<Rightarrow> string \<Rightarrow> string list" where
  "split sep [] = [[]]"
| "split sep (c # cs) =
     (let r = split sep cs in if c = sep then [] # r else (c # hd r) # tl r)"

text \<open>\<open>parts[parts.length - 1]\<close> of the parts of a name split at the dots.\<close>

definition localNameOf :: "string \<Rightarrow> string" where
  "localNameOf n = last (split CHR ''.'' n)"

text \<open>\<open>parts.length > 1 ? parts[0] : null\<close>.\<close>

definition qualifierOf :: "string \<Rightarrow> string option" where
  "qualifierOf n = (let parts = split CHR ''.'' n in
     if length parts > 1 then Some (hd parts) else None)"

section \<open>Regular expressions\<close>

text \<open>
  The constructs of the JavaScript regular expressions that the sources use, with the
  engine's backtracking order. Characters are code units below 256: \<open>\w\<close> is
  \<open>[A-Za-z0-9_]\<close>, \<open>\s\<close> is the white space and line terminators among them, and \<open>.\<close> is
  every character but a line terminator.
\<close>

datatype cls = Ch char | Rng char char | WordC | SpaceC

definition inRange :: "char \<Rightarrow> char \<Rightarrow> char \<Rightarrow> bool" where
  "inRange lo hi c = ((of_char lo :: nat) \<le> of_char c \<and> (of_char c :: nat) \<le> of_char hi)"

fun inCls :: "cls \<Rightarrow> char \<Rightarrow> bool" where
  "inCls (Ch d) c = (c = d)"
| "inCls (Rng lo hi) c = inRange lo hi c"
| "inCls WordC c =
     (inRange CHR ''a'' CHR ''z'' c \<or> inRange CHR ''A'' CHR ''Z'' c
      \<or> inRange CHR ''0'' CHR ''9'' c \<or> c = CHR ''_'')"
| "inCls SpaceC c = ((of_char c :: nat) \<in> {9, 10, 11, 12, 13, 32, 160})"

definition inSet :: "cls list \<Rightarrow> char \<Rightarrow> bool" where
  "inSet cs c = list_ex (\<lambda>k. inCls k c) cs"

text \<open>
  \<open>In cs\<close> is the class \<open>[cs]\<close>, \<open>NotIn cs\<close> is \<open>[^cs]\<close>, \<open>Lit s\<close> the literal text \<open>s\<close>,
  \<open>Star r\<close> the greedy \<open>r*\<close>, \<open>Lazy r\<close> the lazy \<open>r*?\<close>, \<open>Grp n r\<close> the capture group
  number \<open>n\<close>, \<open>NotBehind cs\<close> the lookbehind \<open>(?<![cs])\<close>, \<open>WordB\<close> is \<open>\b\<close>, \<open>Bol\<close> and
  \<open>Eol\<close> are \<open>^\<close> and \<open>$\<close> (no multiline flag). No pattern of the sources has a group
  under a quantifier.
\<close>

datatype rx =
    In "cls list"
  | NotIn "cls list"
  | Lit string
  | Seq rx rx
  | Alt rx rx
  | Star rx
  | Lazy rx
  | Grp nat rx
  | NotBehind "cls list"
  | WordB
  | Bol
  | Eol

text \<open>
  A matcher state: the text already read (last character first), the text still to read,
  and the captures made so far (the latest first).
\<close>

record mstate =
  consumed :: string
  remaining :: string
  caps :: "(nat \<times> string) list"

definition advance :: "nat \<Rightarrow> mstate \<Rightarrow> mstate" where
  "advance n st =
     st\<lparr>consumed := rev (take n (remaining st)) @ consumed st, remaining := drop n (remaining st)\<rparr>"

definition isWordAt :: "string \<Rightarrow> bool" where
  "isWordAt s = (case s of [] \<Rightarrow> False | c # _ \<Rightarrow> inCls WordC c)"

text \<open>
  \<open>rxm r st\<close>: every way \<open>r\<close> matches at \<open>st\<close>, in the order in which the backtracking
  engine tries them; the engine takes the first that lets the rest of the pattern match.
  A repetition stops at an iteration that reads nothing.
\<close>

function rxm :: "rx \<Rightarrow> mstate \<Rightarrow> mstate list" where
  "rxm (In cs) st =
     (case remaining st of [] \<Rightarrow> [] | c # _ \<Rightarrow> if inSet cs c then [advance 1 st] else [])"
| "rxm (NotIn cs) st =
     (case remaining st of [] \<Rightarrow> [] | c # _ \<Rightarrow> if inSet cs c then [] else [advance 1 st])"
| "rxm (Lit s) st =
     (if take (length s) (remaining st) = s then [advance (length s) st] else [])"
| "rxm (Seq a b) st = concat (map (rxm b) (rxm a st))"
| "rxm (Alt a b) st = rxm a st @ rxm b st"
| "rxm (Star r) st =
     concat (map (\<lambda>st'. if length (remaining st') < length (remaining st)
                        then rxm (Star r) st' else [])
       (rxm r st)) @ [st]"
| "rxm (Lazy r) st =
     st # concat (map (\<lambda>st'. if length (remaining st') < length (remaining st)
                             then rxm (Lazy r) st' else [])
            (rxm r st))"
| "rxm (Grp n r) st =
     map (\<lambda>st'. st'\<lparr>caps :=
              (n, rev (take (length (consumed st') - length (consumed st)) (consumed st')))
              # caps st'\<rparr>)
       (rxm r st)"
| "rxm (NotBehind cs) st =
     (case consumed st of [] \<Rightarrow> [st] | c # _ \<Rightarrow> if inSet cs c then [] else [st])"
| "rxm WordB st = (if isWordAt (consumed st) \<noteq> isWordAt (remaining st) then [st] else [])"
| "rxm Bol st = (if consumed st = [] then [st] else [])"
| "rxm Eol st = (if remaining st = [] then [st] else [])"
  by pat_completeness auto
termination
  by (relation "measures [\<lambda>(r, st). size r, \<lambda>(r, st). length (remaining st)]") auto

text \<open>
  The first match at or after the current position (\<open>re.exec\<close>, \<open>re.test\<close>, \<open>s.match\<close>):
  the state where the match starts and the state where it ends.
\<close>

fun rxSearch :: "rx \<Rightarrow> string \<Rightarrow> string \<Rightarrow> (mstate \<times> mstate) option" where
  "rxSearch r bef [] =
     (let st = \<lparr>consumed = bef, remaining = [], caps = []\<rparr> in
      case rxm r st of m # _ \<Rightarrow> Some (st, m) | [] \<Rightarrow> None)"
| "rxSearch r bef (c # cs) =
     (let st = \<lparr>consumed = bef, remaining = c # cs, caps = []\<rparr> in
      case rxm r st of m # _ \<Rightarrow> Some (st, m) | [] \<Rightarrow> rxSearch r (c # bef) cs)"

definition rxTest :: "rx \<Rightarrow> string \<Rightarrow> bool" where
  "rxTest r s = (rxSearch r [] s \<noteq> None)"

text \<open>\<open>match.index\<close>, \<open>match[0]\<close> and \<open>match[n]\<close> (\<open>None\<close> is \<open>undefined\<close>).\<close>

definition matchIndex :: "mstate \<times> mstate \<Rightarrow> nat" where
  "matchIndex m = length (consumed (fst m))"

definition matchText :: "mstate \<times> mstate \<Rightarrow> string" where
  "matchText m =
     rev (take (length (consumed (snd m)) - length (consumed (fst m))) (consumed (snd m)))"

definition matchGroup :: "mstate \<times> mstate \<Rightarrow> nat \<Rightarrow> string option" where
  "matchGroup m n = map_of (caps (snd m)) n"

text \<open>
  The matches of \<open>while ((match = re.exec(s)) !== null)\<close> for a global \<open>re\<close>: each search
  starts where the last match ended. A match that ends where its search started leaves
  \<open>lastIndex\<close> in place, and the loop of the source never ends: \<open>None\<close>.
\<close>

function execAll :: "rx \<Rightarrow> string \<Rightarrow> string \<Rightarrow> (mstate \<times> mstate) list option" where
  "execAll r bef aft =
     (case rxSearch r bef aft of
        None \<Rightarrow> Some []
      | Some m \<Rightarrow>
          if length (remaining (snd m)) < length aft
          then map_option (Cons m) (execAll r (consumed (snd m)) (remaining (snd m)))
          else None)"
  by pat_completeness auto
termination
  by (relation "measure (\<lambda>(r, bef, aft). length aft)") auto

fun seqs :: "rx list \<Rightarrow> rx" where
  "seqs [] = Lit []"
| "seqs [r] = r"
| "seqs (r # rs) = Seq r (seqs rs)"

definition oneOrMore :: "rx \<Rightarrow> rx" where
  "oneOrMore r = Seq r (Star r)"

definition oneOrMoreLazy :: "rx \<Rightarrow> rx" where
  "oneOrMoreLazy r = Seq r (Lazy r)"

definition dot :: rx where
  "dot = NotIn [Ch (CHR 0x0A), Ch (CHR 0x0D)]"

definition spaces :: rx where
  "spaces = Star (In [SpaceC])"

definition identChars :: "cls list" where
  "identChars = [Rng CHR ''a'' CHR ''z'', Rng CHR ''A'' CHR ''Z'', Rng CHR ''0'' CHR ''9'', Ch CHR ''_'']"

section \<open>String methods\<close>

definition isSpace :: "char \<Rightarrow> bool" where
  "isSpace c = inCls SpaceC c"

definition trim :: "string \<Rightarrow> string" where
  "trim s = rev (dropWhile isSpace (rev (dropWhile isSpace s)))"

text \<open>
  \<open>toLowerCase\<close> and \<open>toUpperCase\<close> on the letters \<open>A-Z\<close> and \<open>a-z\<close>. The sources compare
  the result with names made of these letters, digits and \<open>_\<close> only.
\<close>

definition lowerChar :: "char \<Rightarrow> char" where
  "lowerChar c = (if inRange CHR ''A'' CHR ''Z'' c then char_of (of_char c + (32 :: nat)) else c)"

definition upperChar :: "char \<Rightarrow> char" where
  "upperChar c = (if inRange CHR ''a'' CHR ''z'' c then char_of (of_char c - (32 :: nat)) else c)"

definition toLowerCase :: "string \<Rightarrow> string" where
  "toLowerCase s = map lowerChar s"

definition toUpperCase :: "string \<Rightarrow> string" where
  "toUpperCase s = map upperChar s"

definition startsWith :: "string \<Rightarrow> string \<Rightarrow> bool" where
  "startsWith s p = (take (length p) s = p)"

fun includesStr :: "string \<Rightarrow> string \<Rightarrow> bool" where
  "includesStr [] p = (p = [])"
| "includesStr (c # cs) p = (startsWith (c # cs) p \<or> includesStr cs p)"

text \<open>The least number of characters a match of \<open>r\<close> reads.\<close>

fun minLen :: "rx \<Rightarrow> nat" where
  "minLen (In cs) = 1"
| "minLen (NotIn cs) = 1"
| "minLen (Lit s) = length s"
| "minLen (Seq a b) = minLen a + minLen b"
| "minLen (Alt a b) = min (minLen a) (minLen b)"
| "minLen (Star r) = 0"
| "minLen (Lazy r) = 0"
| "minLen (Grp n r) = minLen r"
| "minLen (NotBehind cs) = 0"
| "minLen WordB = 0"
| "minLen Bol = 0"
| "minLen Eol = 0"

section \<open>Properties of the matcher\<close>

declare rxm.simps [simp del]

lemmas rxm_atom_simps = rxm.simps(1-5) rxm.simps(8-12)

lemma in_rxm_Star:
  "st' \<in> set (rxm (Star r) st) \<longleftrightarrow>
     st' = st \<or> (\<exists>m \<in> set (rxm r st). length (remaining m) < length (remaining st)
                    \<and> st' \<in> set (rxm (Star r) m))"
  by (subst rxm.simps) (auto split: if_splits)

lemma in_rxm_Lazy:
  "st' \<in> set (rxm (Lazy r) st) \<longleftrightarrow>
     st' = st \<or> (\<exists>m \<in> set (rxm r st). length (remaining m) < length (remaining st)
                    \<and> st' \<in> set (rxm (Lazy r) m))"
  by (subst rxm.simps) (auto split: if_splits)

lemma advance_simps [simp]:
  "remaining (advance n st) = drop n (remaining st)"
  "consumed (advance n st) = rev (take n (remaining st)) @ consumed st"
  "caps (advance n st) = caps st"
  by (simp_all add: advance_def)

lemma take_eq_length: "take (length s) xs = s \<Longrightarrow> length s \<le> length xs"
proof (rule ccontr)
  assume a: "take (length s) xs = s" and b: "\<not> length s \<le> length xs"
  then have "take (length s) xs = xs" by simp
  with a b show False by simp
qed

lemma rxm_progress:
  "st' \<in> set (rxm r st) \<Longrightarrow> length (remaining st') + minLen r \<le> length (remaining st)"
proof (induction r st arbitrary: st' rule: rxm.induct)
  case (1 cs st)
  then show ?case by (cases "remaining st") (auto simp: rxm_atom_simps split: if_splits)
next
  case (2 cs st)
  then show ?case by (cases "remaining st") (auto simp: rxm_atom_simps split: if_splits)
next
  case (3 s st)
  then have "take (length s) (remaining st) = s" "st' = advance (length s) st"
    by (auto simp: rxm_atom_simps split: if_splits)
  moreover from this have "length s \<le> length (remaining st)"
    by (simp add: take_eq_length)
  ultimately show ?case by simp
next
  case (4 a b st)
  then obtain m where "m \<in> set (rxm a st)" "st' \<in> set (rxm b m)"
    by (auto simp: rxm_atom_simps)
  with 4 have "length (remaining m) + minLen a \<le> length (remaining st)"
    "length (remaining st') + minLen b \<le> length (remaining m)" by blast+
  then show ?case by simp
next
  case (5 a b st)
  from 5(3) have "st' \<in> set (rxm a st) \<or> st' \<in> set (rxm b st)"
    by (simp add: rxm_atom_simps)
  then show ?case
  proof
    assume "st' \<in> set (rxm a st)"
    from 5(1)[OF this] show ?thesis by simp
  next
    assume "st' \<in> set (rxm b st)"
    from 5(2)[OF this] show ?thesis by simp
  qed
next
  case (6 r st)
  show ?case
  proof (cases "st' = st")
    case True then show ?thesis by simp
  next
    case False
    with 6(3) obtain m where m: "m \<in> set (rxm r st)" "length (remaining m) < length (remaining st)"
      "st' \<in> set (rxm (Star r) m)" using in_rxm_Star[THEN iffD1, OF 6(3)] by blast
    with 6(2) have "length (remaining st') + minLen (Star r) \<le> length (remaining m)" by blast
    with m show ?thesis by simp
  qed
next
  case (7 r st)
  show ?case
  proof (cases "st' = st")
    case True then show ?thesis by simp
  next
    case False
    with 7(3) obtain m where m: "m \<in> set (rxm r st)" "length (remaining m) < length (remaining st)"
      "st' \<in> set (rxm (Lazy r) m)" using in_rxm_Lazy[THEN iffD1, OF 7(3)] by blast
    with 7(2) have "length (remaining st') + minLen (Lazy r) \<le> length (remaining m)" by blast
    with m show ?thesis by simp
  qed
next
  case (8 n r st)
  then obtain m where m: "m \<in> set (rxm r st)" "remaining st' = remaining m" "consumed st' = consumed m"
    by (auto simp: rxm_atom_simps)
  from 8(1)[OF m(1)] m(2,3) show ?case by simp
next
  case (9 cs st)
  then show ?case by (cases "consumed st") (auto simp: rxm_atom_simps split: if_splits)
qed (auto simp: rxm_atom_simps split: if_splits)

lemma rxm_total:
  "st' \<in> set (rxm r st) \<Longrightarrow>
     length (consumed st') + length (remaining st') = length (consumed st) + length (remaining st)"
proof (induction r st arbitrary: st' rule: rxm.induct)
  case (1 cs st)
  then show ?case by (cases "remaining st") (auto simp: rxm_atom_simps split: if_splits)
next
  case (2 cs st)
  then show ?case by (cases "remaining st") (auto simp: rxm_atom_simps split: if_splits)
next
  case (3 s st)
  then have "take (length s) (remaining st) = s" "st' = advance (length s) st"
    by (auto simp: rxm_atom_simps split: if_splits)
  moreover from this have "length s \<le> length (remaining st)"
    by (simp add: take_eq_length)
  ultimately show ?case by simp
next
  case (4 a b st)
  then obtain m where m: "m \<in> set (rxm a st)" "st' \<in> set (rxm b m)"
    by (auto simp: rxm_atom_simps)
  from 4(1)[OF m(1)] 4(2)[OF m(1) m(2)] show ?case by simp
next
  case (5 a b st)
  from 5(3) have "st' \<in> set (rxm a st) \<or> st' \<in> set (rxm b st)"
    by (simp add: rxm_atom_simps)
  then show ?case
  proof
    assume "st' \<in> set (rxm a st)"
    from 5(1)[OF this] show ?thesis by simp
  next
    assume "st' \<in> set (rxm b st)"
    from 5(2)[OF this] show ?thesis by simp
  qed
next
  case (6 r st)
  show ?case
  proof (cases "st' = st")
    case True then show ?thesis by simp
  next
    case False
    with 6(3) obtain m where m: "m \<in> set (rxm r st)" "length (remaining m) < length (remaining st)"
      "st' \<in> set (rxm (Star r) m)" using in_rxm_Star[THEN iffD1, OF 6(3)] by blast
    from 6(1)[OF m(1)] 6(2)[OF m(1) m(2) m(3)] show ?thesis by simp
  qed
next
  case (7 r st)
  show ?case
  proof (cases "st' = st")
    case True then show ?thesis by simp
  next
    case False
    with 7(3) obtain m where m: "m \<in> set (rxm r st)" "length (remaining m) < length (remaining st)"
      "st' \<in> set (rxm (Lazy r) m)" using in_rxm_Lazy[THEN iffD1, OF 7(3)] by blast
    from 7(1)[OF m(1)] 7(2)[OF m(1) m(2) m(3)] show ?thesis by simp
  qed
next
  case (8 n r st)
  then obtain m where m: "m \<in> set (rxm r st)" "remaining st' = remaining m" "consumed st' = consumed m"
    by (auto simp: rxm_atom_simps)
  from 8(1)[OF m(1)] m(2,3) show ?case by simp
next
  case (9 cs st)
  then show ?case by (cases "consumed st") (auto simp: rxm_atom_simps split: if_splits)
qed (auto simp: rxm_atom_simps split: if_splits)

lemma rxm_caps:
  "st' \<in> set (rxm r st) \<Longrightarrow> (n, c) \<in> set (caps st') \<Longrightarrow>
     (n, c) \<in> set (caps st) \<or> length c + length (remaining st') \<le> length (remaining st)"
proof (induction r st arbitrary: st' rule: rxm.induct)
  case (1 cs st)
  then show ?case by (cases "remaining st") (auto simp: rxm_atom_simps split: if_splits)
next
  case (2 cs st)
  then show ?case by (cases "remaining st") (auto simp: rxm_atom_simps split: if_splits)
next
  case (3 s st)
  then show ?case by (auto simp: rxm_atom_simps split: if_splits)
next
  case (4 a b st)
  then obtain m where m: "m \<in> set (rxm a st)" "st' \<in> set (rxm b m)"
    by (auto simp: rxm_atom_simps)
  from 4(2)[OF m(1) m(2) 4(4)] show ?case
  proof
    assume "(n, c) \<in> set (caps m)"
    from 4(1)[OF m(1) this] rxm_progress[OF m(2)] show ?thesis by auto
  next
    assume "length c + length (remaining st') \<le> length (remaining m)"
    with rxm_progress[OF m(1)] show ?thesis by auto
  qed
next
  case (5 a b st)
  from 5(3) have "st' \<in> set (rxm a st) \<or> st' \<in> set (rxm b st)"
    by (simp add: rxm_atom_simps)
  then show ?case
  proof
    assume "st' \<in> set (rxm a st)"
    from 5(1)[OF this 5(4)] show ?thesis by simp
  next
    assume "st' \<in> set (rxm b st)"
    from 5(2)[OF this 5(4)] show ?thesis by simp
  qed
next
  case (6 r st)
  show ?case
  proof (cases "st' = st")
    case True with 6(4) show ?thesis by simp
  next
    case False
    with 6(3) obtain m where m: "m \<in> set (rxm r st)" "length (remaining m) < length (remaining st)"
      "st' \<in> set (rxm (Star r) m)" using in_rxm_Star[THEN iffD1, OF 6(3)] by blast
    from 6(2)[OF m(1) m(2) m(3) 6(4)] show ?thesis
    proof
      assume "(n, c) \<in> set (caps m)"
      from 6(1)[OF m(1) this] rxm_progress[OF m(3)] show ?thesis by auto
    next
      assume "length c + length (remaining st') \<le> length (remaining m)"
      with m(2) show ?thesis by auto
    qed
  qed
next
  case (7 r st)
  show ?case
  proof (cases "st' = st")
    case True with 7(4) show ?thesis by simp
  next
    case False
    with 7(3) obtain m where m: "m \<in> set (rxm r st)" "length (remaining m) < length (remaining st)"
      "st' \<in> set (rxm (Lazy r) m)" using in_rxm_Lazy[THEN iffD1, OF 7(3)] by blast
    from 7(2)[OF m(1) m(2) m(3) 7(4)] show ?thesis
    proof
      assume "(n, c) \<in> set (caps m)"
      from 7(1)[OF m(1) this] rxm_progress[OF m(3)] show ?thesis by auto
    next
      assume "length c + length (remaining st') \<le> length (remaining m)"
      with m(2) show ?thesis by auto
    qed
  qed
next
  case (8 k r st)
  then obtain m where m: "m \<in> set (rxm r st)"
    "st' = m\<lparr>caps := (k, rev (take (length (consumed m) - length (consumed st)) (consumed m))) # caps m\<rparr>"
    by (auto simp: rxm_atom_simps)
  show ?case
  proof (cases "(n, c) \<in> set (caps m)")
    case True
    from 8(1)[OF m(1) True] m(2) show ?thesis by auto
  next
    case False
    with 8(3) m(2) have c: "c = rev (take (length (consumed m) - length (consumed st)) (consumed m))"
      by auto
    from rxm_total[OF m(1)] rxm_progress[OF m(1)] have "length c + length (remaining m) \<le> length (remaining st)"
      unfolding c by simp
    with m(2) show ?thesis by simp
  qed
next
  case (9 cs st)
  then show ?case by (cases "consumed st") (auto simp: rxm_atom_simps split: if_splits)
qed (auto simp: rxm_atom_simps split: if_splits)

lemma rxSearch_Some:
  "rxSearch r bef aft = Some m \<Longrightarrow>
     snd m \<in> set (rxm r (fst m)) \<and> caps (fst m) = []
     \<and> length (remaining (fst m)) \<le> length aft"
proof (induction aft arbitrary: bef)
  case Nil
  then show ?case by (auto simp: Let_def split: list.splits)
next
  case (Cons c cs)
  show ?case
  proof (cases "rxm r \<lparr>consumed = bef, remaining = c # cs, caps = []\<rparr>")
    case Nil
    with Cons.prems have "rxSearch r (c # bef) cs = Some m" by (simp add: Let_def)
    from Cons.IH[OF this] show ?thesis by simp
  next
    case (Cons x xs)
    with Cons.prems show ?thesis by (auto simp: Let_def)
  qed
qed

lemma rxSearch_progress:
  assumes "rxSearch r bef aft = Some m"
  shows "length (remaining (snd m)) + minLen r \<le> length aft"
  using rxSearch_Some[OF assms] rxm_progress[of "snd m" r "fst m"] by simp

lemma execAll_Some:
  "0 < minLen r \<Longrightarrow> \<exists>ms. execAll r bef aft = Some ms"
proof (induction r bef aft rule: execAll.induct)
  case (1 r bef aft)
  show ?case
  proof (cases "rxSearch r bef aft")
    case None
    then show ?thesis by (subst execAll.simps) simp
  next
    case (Some m)
    from rxSearch_progress[OF Some] 1(2)
    have lt: "length (remaining (snd m)) < length aft" by linarith
    from 1(1)[OF Some lt 1(2)] obtain ms where
      "execAll r (consumed (snd m)) (remaining (snd m)) = Some ms" by blast
    with Some lt show ?thesis by (subst execAll.simps) simp
  qed
qed

lemma rxm_Seq_caps_shorter:
  assumes "st' \<in> set (rxm (Seq a b) st)" and "0 < minLen a" and "0 < minLen b"
    and "caps st = []" and "(n, c) \<in> set (caps st')"
  shows "length c < length (remaining st)"
proof -
  from assms(1) obtain m where m: "m \<in> set (rxm a st)" "st' \<in> set (rxm b m)"
    by (auto simp: rxm_atom_simps)
  from rxm_progress[OF m(1)] assms(2) have am: "length (remaining m) < length (remaining st)"
    by linarith
  from rxm_progress[OF m(2)] assms(3) have mb: "0 < length (remaining m)"
    by linarith
  from rxm_caps[OF m(2) assms(5)] show ?thesis
  proof
    assume "(n, c) \<in> set (caps m)"
    from rxm_caps[OF m(1) this] assms(4)
    have "length c + length (remaining m) \<le> length (remaining st)" by simp
    with mb show ?thesis by linarith
  next
    assume "length c + length (remaining st') \<le> length (remaining m)"
    with am show ?thesis by linarith
  qed
qed

lemma rxm_Seq_Bol: "st' \<in> set (rxm (Seq Bol r) st) \<Longrightarrow> st' \<in> set (rxm r st)"
  by (auto simp: rxm_atom_simps split: if_splits)

lemma length_trim: "length (trim s) \<le> length s"
proof -
  have "length (trim s) \<le> length (dropWhile isSpace s)"
    unfolding trim_def using length_dropWhile_le[of isSpace "rev (dropWhile isSpace s)"] by simp
  also have "\<dots> \<le> length s" by (rule length_dropWhile_le)
  finally show ?thesis .
qed

declare execAll.simps [simp del]

section \<open>State-variable resolver (stateVariableResolver.ts)\<close>

text \<open>A \<open>Set<string>\<close> is the list of its elements in insertion order.\<close>

definition setAdd :: "'a \<Rightarrow> 'a list \<Rightarrow> 'a list" where
  "setAdd x xs = (if x \<in> set xs then xs else xs @ [x])"

text \<open>\<open>/\b([a-zA-Z_][a-zA-Z0-9_]*)\b/g\<close>\<close>

definition identifierPattern :: rx where
  "identifierPattern =
     seqs [WordB,
           Grp 1 (Seq (In [Rng CHR ''a'' CHR ''z'', Rng CHR ''A'' CHR ''Z'', Ch CHR ''_''])
                      (Star (In identChars))),
           WordB]"

text \<open>
  The result is \<open>None\<close> when the \<open>exec\<close> loop of the source does not end (see \<open>execAll\<close>).
\<close>

definition extractStateVariableReferences ::
  "FunctionInfo \<Rightarrow> ContractInfo \<Rightarrow> string list option" where
  "extractStateVariableReferences functionInfo currentContract =
     (let source = f_fullSource functionInfo;
          contractStateVars = map v_name (c_stateVariables currentContract)
      in map_option
           (\<lambda>matches.
              fold (\<lambda>match stateVarNames.
                      case matchGroup match 1 of
                        Some identifier \<Rightarrow>
                          if identifier \<in> set contractStateVars
                          then setAdd identifier stateVarNames else stateVarNames
                      | None \<Rightarrow> stateVarNames)
                matches [])
           (execAll identifierPattern [] source))"

section \<open>Call-graph builder (callGraphBuilder.ts)\<close>

definition BUILTINS :: "string list" where
  "BUILTINS =
     [''require'', ''assert'', ''revert'', ''keccak256'', ''sha256'', ''sha3'',
      ''ripemd160'', ''ecrecover'', ''addmod'', ''mulmod'', ''selfdestruct'',
      ''blockhash'', ''gasleft'', ''type'', ''abi'',
      ''push'', ''pop'', ''transfer'', ''send'', ''call'',
      ''delegatecall'', ''staticcall'', ''encode'', ''encodePacked'',
      ''encodeWithSelector'', ''encodeWithSignature'', ''decode'',
      ''length'', ''balance'', ''code'', ''codehash'',
      ''safeApprove'', ''safeTransfer'', ''safeTransferFrom'', ''approve'',
      ''transferFrom'', ''allowance'', ''balanceOf'', ''totalSupply'',
      ''mint'', ''burn'', ''deposit'', ''withdraw'', ''borrow'', ''repay'',
      ''supply'', ''claim'', ''stake'', ''unstake'']"

definition TYPE_CASTS :: "string list" where
  "TYPE_CASTS =
     [''address'', ''bool'', ''string'', ''bytes'', ''uint'', ''int'',
      ''uint8'', ''uint16'', ''uint24'', ''uint32'', ''uint40'', ''uint48'', ''uint56'',
      ''uint64'', ''uint72'', ''uint80'', ''uint88'', ''uint96'', ''uint104'', ''uint112'',
      ''uint120'', ''uint128'', ''uint136'', ''uint144'', ''uint152'', ''uint160'',
      ''uint168'', ''uint176'', ''uint184'', ''uint192'', ''uint200'', ''uint208'',
      ''uint216'', ''uint224'', ''uint232'', ''uint240'', ''uint248'', ''uint256'',
      ''int8'', ''int16'', ''int24'', ''int32'', ''int40'', ''int48'', ''int56'', ''int64'',
      ''int72'', ''int80'', ''int88'', ''int96'', ''int104'', ''int112'', ''int120'',
      ''int128'', ''int136'', ''int144'', ''int152'', ''int160'', ''int168'', ''int176'',
      ''int184'', ''int192'', ''int200'', ''int208'', ''int216'', ''int224'', ''int232'',
      ''int240'', ''int248'', ''int256'',
      ''bytes1'', ''bytes2'', ''bytes3'', ''bytes4'', ''bytes5'', ''bytes6'', ''bytes7'',
      ''bytes8'', ''bytes9'', ''bytes10'', ''bytes11'', ''bytes12'', ''bytes13'', ''bytes14'',
      ''bytes15'', ''bytes16'', ''bytes17'', ''bytes18'', ''bytes19'', ''bytes20'',
      ''bytes21'', ''bytes22'', ''bytes23'', ''bytes24'', ''bytes25'', ''bytes26'',
      ''bytes27'', ''bytes28'', ''bytes29'', ''bytes30'', ''bytes31'', ''bytes32'']"

definition KEYWORDS :: "string list" where
  "KEYWORDS =
     [''if'', ''else'', ''for'', ''while'', ''do'', ''return'', ''emit'', ''new'', ''delete'',
      ''try'', ''catch'', ''break'', ''continue'']"

text \<open>\<open>([a-z_][a-zA-Z0-9_]*)\<close>, the first group of three of the patterns below.\<close>

definition lowerName :: rx where
  "lowerName = Grp 1 (Seq (In [Rng CHR ''a'' CHR ''z'', Ch CHR ''_'']) (Star (In identChars)))"

text \<open>\<open>/(?<![.\w])([a-z_][a-zA-Z0-9_]*)\s*\(/g\<close>\<close>

definition directCallPattern :: rx where
  "directCallPattern = seqs [NotBehind [Ch CHR ''.'', WordC], lowerName, spaces, Lit ''('']"

text \<open>\<open>/this\.([a-z_][a-zA-Z0-9_]*)\s*\(/g\<close>\<close>

definition thisCallPattern :: rx where
  "thisCallPattern = seqs [Lit ''this.'', lowerName, spaces, Lit ''('']"

text \<open>\<open>/(?<![.\w])(_[a-zA-Z0-9_]+)\s*\(/g\<close>\<close>

definition internalCallPattern :: rx where
  "internalCallPattern =
     seqs [NotBehind [Ch CHR ''.'', WordC],
           Grp 1 (Seq (Lit ''_'') (oneOrMore (In identChars))), spaces, Lit ''('']"

text \<open>
  The patterns built from a call name. The names are captures of the three patterns
  above, made of letters, digits and \<open>_\<close>, so the interpolated name is literal text.

  \<open>/^I[A-Z]/\<close> and \<open>new RegExp(`${name}\\s*\\([^)]+\\)`)\<close>
\<close>

definition interfaceNamePattern :: rx where
  "interfaceNamePattern = seqs [Bol, Lit ''I'', In [Rng CHR ''A'' CHR ''Z'']]"

definition typeCastPattern :: "string \<Rightarrow> rx" where
  "typeCastPattern name =
     seqs [Lit name, spaces, Lit ''('', oneOrMore (NotIn [Ch CHR '')'']), Lit '')'']"

definition isInterfaceCall :: "string \<Rightarrow> string \<Rightarrow> bool" where
  "isInterfaceCall name ln =
     (if rxTest interfaceNamePattern name
      then (if rxTest (typeCastPattern name) ln then True else False)
      else False)"

text \<open>\<open>new RegExp(`I[A-Z][a-zA-Z0-9_]*\\([^)]*\\)\\.${name}\\s*\\(`)\<close>\<close>

definition interfaceMethodPattern :: "string \<Rightarrow> rx" where
  "interfaceMethodPattern name =
     seqs [Lit ''I'', In [Rng CHR ''A'' CHR ''Z''], Star (In identChars), Lit ''('',
           Star (NotIn [Ch CHR '')'']), Lit '')'', Lit ''.'', Lit name, spaces, Lit ''('']"

text \<open>\<open>new RegExp(`\\w+\\.${name}\\s*\\(`)\<close>\<close>

definition externalCallPattern :: "string \<Rightarrow> rx" where
  "externalCallPattern name =
     seqs [oneOrMore (In [WordC]), Lit ''.'', Lit name, spaces, Lit ''('']"

text \<open>\<open>new RegExp(`([a-z_][a-zA-Z0-9_]*)\\.${name}\\s*\\(`)\<close>\<close>

definition varMethodPattern :: "string \<Rightarrow> rx" where
  "varMethodPattern name = seqs [lowerName, Lit ''.'', Lit name, spaces, Lit ''('']"

definition shouldSkipCall :: "string \<Rightarrow> string \<Rightarrow> string \<Rightarrow> bool" where
  "shouldSkipCall name expression ln =
     (if name \<in> set BUILTINS then True
      else if name \<in> set KEYWORDS then True
      else if name \<in> set TYPE_CASTS then True
      else if isInterfaceCall name ln then True
      else if rxTest (interfaceMethodPattern name) ln then True
      else if rxTest (externalCallPattern name) ln \<and> \<not> includesStr ln (''this.'' @ name)
              \<and> rxTest (varMethodPattern name) ln then True
      else False)"

text \<open>
  The body of the three \<open>exec\<close> loops. \<open>seenCalls\<close> holds the keys \<open>`${lineNum}:${expression}`\<close>,
  here the pairs of a line number and an expression. Group 1 takes part in every match of
  the three patterns.
\<close>

definition recordCall ::
  "int \<Rightarrow> string \<Rightarrow> (string \<Rightarrow> string) \<Rightarrow> mstate \<times> mstate
   \<Rightarrow> (int \<times> string) list \<times> FunctionCallInfo list
   \<Rightarrow> (int \<times> string) list \<times> FunctionCallInfo list" where
  "recordCall lineNum ln expressionOf match acc =
     (case matchGroup match 1 of
        None \<Rightarrow> acc
      | Some name \<Rightarrow>
          (let expression = expressionOf name;
               callKey = (lineNum, expression);
               seenCalls = fst acc;
               calls = snd acc
           in if callKey \<in> set seenCalls then acc
              else if shouldSkipCall name expression ln then acc
              else (setAdd callKey seenCalls,
                    calls @ [\<lparr>fc_name = name, fc_expression = expression, fc_arguments = [],
                               fc_location =
                                 \<lparr>start = \<lparr>line = lineNum, column = int (matchIndex match)\<rparr>,
                                  end = \<lparr>line = lineNum,
                                         column = int (matchIndex match + length (matchText match))\<rparr>\<rparr>,
                               fc_resolvedFunction = None\<rparr>])))"

text \<open>The loop over the lines; \<open>None\<close> when an \<open>exec\<close> loop does not end.\<close>

fun scanLines ::
  "int \<Rightarrow> string list \<Rightarrow> (int \<times> string) list \<times> FunctionCallInfo list
   \<Rightarrow> ((int \<times> string) list \<times> FunctionCallInfo list) option" where
  "scanLines lineNum [] acc = Some acc"
| "scanLines lineNum (ln # rest) acc =
     (case execAll directCallPattern [] ln of
        None \<Rightarrow> None
      | Some direct \<Rightarrow>
          (case execAll thisCallPattern [] ln of
             None \<Rightarrow> None
           | Some viaThis \<Rightarrow>
               (case execAll internalCallPattern [] ln of
                  None \<Rightarrow> None
                | Some internal \<Rightarrow>
                    scanLines (lineNum + 1) rest
                      (fold (recordCall lineNum ln (\<lambda>name. name)) internal
                        (fold (recordCall lineNum ln (\<lambda>name. ''this.'' @ name)) viaThis
                          (fold (recordCall lineNum ln (\<lambda>name. name)) direct acc))))))"

definition extractFunctionCalls :: "FunctionInfo \<Rightarrow> FunctionCallInfo list option" where
  "extractFunctionCalls functionInfo =
     (let sourceCode = f_fullSource functionInfo;
          lines = split (CHR 0x0A) sourceCode
      in map_option snd (scanLines (line (start (f_location functionInfo))) lines ([], [])))"

definition findInContracts :: "string \<Rightarrow> ContractInfo list \<Rightarrow> FunctionInfo option" where
  "findInContracts functionName cs =
     firstSome (\<lambda>contract. find (\<lambda>func. f_name func = functionName) (c_functions contract)) cs"

definition findFunctionDefinition ::
  "string \<Rightarrow> string \<Rightarrow> ParsedFile \<Rightarrow> Workspace \<Rightarrow> FunctionInfo option" where
  "findFunctionDefinition name expression currentFile workspaceFiles =
     (let functionName = localNameOf expression in
      case findInContracts functionName (contracts currentFile) of
        Some func \<Rightarrow> Some func
      | None \<Rightarrow>
          firstSome (\<lambda>(path, parsedFile).
              if path = filePath currentFile then None
              else findInContracts functionName (contracts parsedFile))
            workspaceFiles)"

definition resolveFunctionCall ::
  "FunctionCallInfo \<Rightarrow> ParsedFile \<Rightarrow> Workspace \<Rightarrow> FunctionCallInfo" where
  "resolveFunctionCall call currentFile workspaceFiles =
     call\<lparr>fc_resolvedFunction :=
       findFunctionDefinition (fc_name call) (fc_expression call) currentFile workspaceFiles\<rparr>"

text \<open>The loop of \<open>buildCallGraph\<close> over the extracted calls.\<close>

fun resolveCalls ::
  "FunctionCallInfo list \<Rightarrow> FunctionInfo \<Rightarrow> ParsedFile \<Rightarrow> Workspace \<Rightarrow> FunctionCallInfo list" where
  "resolveCalls [] functionInfo currentFile workspaceFiles = []"
| "resolveCalls (call # rest) functionInfo currentFile workspaceFiles =
     (if fc_name call = f_name functionInfo then
        resolveCalls rest functionInfo currentFile workspaceFiles
      else
        (let resolved = resolveFunctionCall call currentFile workspaceFiles in
         if fc_resolvedFunction resolved \<noteq> None
         then resolved # resolveCalls rest functionInfo currentFile workspaceFiles
         else resolveCalls rest functionInfo currentFile workspaceFiles))"

definition buildCallGraph ::
  "FunctionInfo \<Rightarrow> ParsedFile \<Rightarrow> Workspace \<Rightarrow> FunctionCallInfo list option" where
  "buildCallGraph functionInfo currentFile workspaceFiles =
     map_option (\<lambda>calls. resolveCalls calls functionInfo currentFile workspaceFiles)
       (extractFunctionCalls functionInfo)"

text \<open>The point queries.\<close>

definition resolveSingleFunction :: "string \<Rightarrow> Workspace \<Rightarrow> FunctionInfo option" where
  "resolveSingleFunction functionName workspaceFiles =
     (let localName = localNameOf functionName in
      firstSome (\<lambda>(filePath, parsedFile). findInContracts localName (contracts parsedFile))
        workspaceFiles)"

section \<open>Type resolver: candidate names (typeResolver.ts)\<close>

definition ELEMENTARY_TYPES :: "string list" where
  "ELEMENTARY_TYPES =
     [''address'', ''bool'', ''string'', ''bytes'', ''uint'', ''int'',
      ''uint8'', ''uint16'', ''uint24'', ''uint32'', ''uint40'', ''uint48'', ''uint56'',
      ''uint64'', ''uint72'', ''uint80'', ''uint88'', ''uint96'', ''uint104'', ''uint112'',
      ''uint120'', ''uint128'', ''uint136'', ''uint144'', ''uint152'', ''uint160'',
      ''uint168'', ''uint176'', ''uint184'', ''uint192'', ''uint200'', ''uint208'',
      ''uint216'', ''uint224'', ''uint232'', ''uint240'', ''uint248'', ''uint256'',
      ''int8'', ''int16'', ''int24'', ''int32'', ''int40'', ''int48'', ''int56'', ''int64'',
      ''int72'', ''int80'', ''int88'', ''int96'', ''int104'', ''int112'', ''int120'',
      ''int128'', ''int136'', ''int144'', ''int152'', ''int160'', ''int168'', ''int176'',
      ''int184'', ''int192'', ''int200'', ''int208'', ''int216'', ''int224'', ''int232'',
      ''int240'', ''int248'', ''int256'',
      ''bytes1'', ''bytes2'', ''bytes3'', ''bytes4'', ''bytes5'', ''bytes6'', ''bytes7'',
      ''bytes8'', ''bytes9'', ''bytes10'', ''bytes11'', ''bytes12'', ''bytes13'', ''bytes14'',
      ''bytes15'', ''bytes16'', ''bytes17'', ''bytes18'', ''bytes19'', ''bytes20'',
      ''bytes21'', ''bytes22'', ''bytes23'', ''bytes24'', ''bytes25'', ''bytes26'',
      ''bytes27'', ''bytes28'', ''bytes29'', ''bytes30'', ''bytes31'', ''bytes32'',
      ''function'', ''unknown'', ''void'', ''var'']"

definition SKIP_NAMES :: "string list" where
  "SKIP_NAMES =
     [''require'', ''assert'', ''revert'', ''keccak256'', ''sha256'', ''sha3'',
      ''ripemd160'', ''ecrecover'', ''addmod'', ''mulmod'', ''selfdestruct'',
      ''blockhash'', ''gasleft'', ''Error'', ''Panic'', ''abi'', ''block'',
      ''msg'', ''tx'', ''this'', ''super'', ''type'', ''true'', ''false'',
      ''if'', ''else'', ''for'', ''while'', ''do'', ''return'', ''emit'', ''new'', ''delete'',
      ''memory'', ''storage'', ''calldata'', ''public'', ''private'', ''internal'', ''external'',
      ''pure'', ''view'', ''payable'', ''constant'', ''immutable'', ''virtual'', ''override'']"

text \<open>\<open>typeName.split('.').pop() || typeName\<close>.\<close>

definition normalizedNameOf :: "string \<Rightarrow> string" where
  "normalizedNameOf typeName =
     (let l = localNameOf typeName in if l \<noteq> [] then l else typeName)"

text \<open>\<open>/mapping\s*\(\s*(.+?)\s*=>\s*(.+)\s*\)/\<close>\<close>

definition mappingPattern :: rx where
  "mappingPattern =
     seqs [Lit ''mapping'', spaces, Lit ''('', spaces, Grp 1 (oneOrMoreLazy dot), spaces,
           Lit ''=>'', spaces, Grp 2 (oneOrMore dot), spaces, Lit '')'']"

text \<open>\<open>/^(.+?)\s*\[.*\]$/\<close>\<close>

definition arrayPattern :: rx where
  "arrayPattern =
     seqs [Bol, Grp 1 (oneOrMoreLazy dot), spaces, Lit ''['', Star dot, Lit '']'', Eol]"

text \<open>\<open>/^[A-Z]/\<close>\<close>

definition upperStartPattern :: rx where
  "upperStartPattern = seqs [Bol, In [Rng CHR ''A'' CHR ''Z'']]"

text \<open>
  The text of a group that takes part in the match (the groups the sources read do, in
  every match of their pattern).
\<close>

definition groupText :: "mstate \<times> mstate \<Rightarrow> nat \<Rightarrow> string" where
  "groupText m n = (case matchGroup m n of Some s \<Rightarrow> s | None \<Rightarrow> [])"

text \<open>A captured group, trimmed, is shorter than the text searched.\<close>

lemma groupText_shorter:
  assumes "rxSearch r [] s = Some m" and "snd m \<in> set (rxm (Seq a b) (fst m))"
    and "0 < minLen a" and "0 < minLen b"
  shows "length (trim (groupText m n)) < length s"
proof -
  note S = rxSearch_Some[OF assms(1)]
  from rxm_progress[OF assms(2)] assms(3) S have pos: "s \<noteq> []" by (cases s) simp_all
  show ?thesis
  proof (cases "matchGroup m n")
    case None
    with pos show ?thesis by (simp add: groupText_def trim_def)
  next
    case (Some c)
    then have "(n, c) \<in> set (caps (snd m))" by (simp add: matchGroup_def map_of_SomeD)
    with S assms(3,4) have "length c < length (remaining (fst m))"
      using rxm_Seq_caps_shorter[OF assms(2), of n c] by simp
    with S have "length c < length s" by linarith
    with length_trim[of c] Some show ?thesis by (simp add: groupText_def)
  qed
qed

lemma mapping_shorter:
  assumes "rxSearch mappingPattern [] s = Some m"
  shows "length (trim (groupText m n)) < length s"
proof -
  let ?b = "seqs [spaces, Lit ''('', spaces, Grp 1 (oneOrMoreLazy dot), spaces,
           Lit ''=>'', spaces, Grp 2 (oneOrMore dot), spaces, Lit '')'']"
  have e: "mappingPattern = Seq (Lit ''mapping'') ?b" by (simp add: mappingPattern_def)
  have b: "0 < minLen ?b" by (simp add: oneOrMore_def oneOrMoreLazy_def dot_def spaces_def)
  from rxSearch_Some[OF assms] have "snd m \<in> set (rxm (Seq (Lit ''mapping'') ?b) (fst m))"
    unfolding e by simp
  from groupText_shorter[OF assms this _ b] show ?thesis by simp
qed

lemma array_shorter:
  assumes "rxSearch arrayPattern [] s = Some m"
  shows "length (trim (groupText m n)) < length s"
proof -
  let ?a = "Grp 1 (oneOrMoreLazy dot)"
  let ?b = "seqs [spaces, Lit ''['', Star dot, Lit '']'', Eol]"
  have e: "arrayPattern = Seq Bol (Seq ?a ?b)" by (simp add: arrayPattern_def)
  have a: "0 < minLen ?a" by (simp add: oneOrMoreLazy_def dot_def)
  have b: "0 < minLen ?b" by (simp add: spaces_def)
  from rxSearch_Some[OF assms] have "snd m \<in> set (rxm (Seq ?a ?b) (fst m))"
    unfolding e by (simp add: rxm_Seq_Bol)
  from groupText_shorter[OF assms this a b] show ?thesis .
qed

text \<open>\<open>types\<close> is the set the source adds to, returned with the additions.\<close>

function extractFromTypeName :: "string \<Rightarrow> string list \<Rightarrow> string list" where
  "extractFromTypeName typeName types =
     (case rxSearch mappingPattern [] typeName of
        Some mappingMatch \<Rightarrow>
          extractFromTypeName (trim (groupText mappingMatch 2))
            (extractFromTypeName (trim (groupText mappingMatch 1)) types)
      | None \<Rightarrow>
          (case rxSearch arrayPattern [] typeName of
             Some arrayMatch \<Rightarrow> extractFromTypeName (trim (groupText arrayMatch 1)) types
           | None \<Rightarrow>
               (let cleanName = normalizedNameOf typeName in
                if toLowerCase cleanName \<in> set ELEMENTARY_TYPES then types
                else if cleanName \<in> set SKIP_NAMES then types
                else if rxTest upperStartPattern cleanName then setAdd typeName types
                else types)))"
  by pat_completeness auto
termination
proof (relation "measure (\<lambda>(typeName, types). length typeName)")
  show "wf (measure (\<lambda>(typeName, types). length typeName))" by simp
next
  fix typeName :: string and types :: "string list" and m
  assume "rxSearch mappingPattern [] typeName = Some m"
  then show "((trim (groupText m 1), types), (typeName, types))
              \<in> measure (\<lambda>(typeName, types). length typeName)"
    by (simp add: mapping_shorter)
next
  fix typeName :: string and types :: "string list" and m
  assume "rxSearch mappingPattern [] typeName = Some m"
  then show "((trim (groupText m 2), extractFromTypeName (trim (groupText m 1)) types),
               (typeName, types))
              \<in> measure (\<lambda>(typeName, types). length typeName)"
    by (simp add: mapping_shorter)
next
  fix typeName :: string and types :: "string list" and m
  assume "rxSearch arrayPattern [] typeName = Some m"
  then show "((trim (groupText m 1), types), (typeName, types))
              \<in> measure (\<lambda>(typeName, types). length typeName)"
    by (simp add: array_shorter)
qed

declare extractFromTypeName.simps [simp del]

text \<open>
  The patterns of the scan of the function's source:

  \<open>/\b([A-Z][a-zA-Z0-9_]*)\s+(?:memory|storage|calldata)\s+\w+/g\<close>,
  \<open>/\b([A-Z][a-zA-Z0-9_]*)\s+\w+\s*[=;,)]/g\<close>,
  \<open>/\b([A-Z][a-zA-Z0-9_]*)\s*\(/g\<close>,
  \<open>/\b([A-Z][a-zA-Z0-9_]*)\.([A-Z][A-Z0-9_]*)\b/g\<close>,
  \<open>/==\s*([A-Z][a-zA-Z0-9_]*)\.|\b([A-Z][a-zA-Z0-9_]*)\.\w+\s*[=!<>]/g\<close> and
  \<open>/\b([A-Z][a-zA-Z0-9_]*)\b/g\<close>.
\<close>

definition upperName :: rx where
  "upperName = Seq (In [Rng CHR ''A'' CHR ''Z'']) (Star (In identChars))"

definition varDeclPattern1 :: rx where
  "varDeclPattern1 =
     seqs [WordB, Grp 1 upperName, oneOrMore (In [SpaceC]),
           Alt (Lit ''memory'') (Alt (Lit ''storage'') (Lit ''calldata'')),
           oneOrMore (In [SpaceC]), oneOrMore (In [WordC])]"

definition varDeclPattern2 :: rx where
  "varDeclPattern2 =
     seqs [WordB, Grp 1 upperName, oneOrMore (In [SpaceC]), oneOrMore (In [WordC]), spaces,
           In [Ch CHR ''='', Ch CHR '';'', Ch CHR '','', Ch CHR '')'']]"

definition structInstPattern :: rx where
  "structInstPattern = seqs [WordB, Grp 1 upperName, spaces, Lit ''('']"

definition enumAccessPattern :: rx where
  "enumAccessPattern =
     seqs [WordB, Grp 1 upperName, Lit ''.'',
           Grp 2 (Seq (In [Rng CHR ''A'' CHR ''Z''])
                      (Star (In [Rng CHR ''A'' CHR ''Z'', Rng CHR ''0'' CHR ''9'', Ch CHR ''_'']))),
           WordB]"

definition typeComparePattern :: rx where
  "typeComparePattern =
     Alt (seqs [Lit ''=='', spaces, Grp 1 upperName, Lit ''.''])
         (seqs [WordB, Grp 2 upperName, Lit ''.'', oneOrMore (In [WordC]), spaces,
                In [Ch CHR ''='', Ch CHR ''!'', Ch CHR ''<'', Ch CHR ''>'']])"

definition genericPattern :: rx where
  "genericPattern = seqs [WordB, Grp 1 upperName, WordB]"

text \<open>
  \<open>addTypeIfValid\<close>; the name is \<open>None\<close> for \<open>undefined\<close>. The last test is
  \<open>/^I[A-Z]/.test(name)\<close>.
\<close>

definition addTypeIfValid :: "string option \<Rightarrow> string list \<Rightarrow> string list" where
  "addTypeIfValid name types =
     (case name of
        None \<Rightarrow> types
      | Some n \<Rightarrow>
          if n = [] then types
          else if toLowerCase n \<in> set ELEMENTARY_TYPES then types
          else if n \<in> set SKIP_NAMES then types
          else if length n < 2 then types
          else if rxTest (seqs [Bol, Lit ''I'', In [Rng CHR ''A'' CHR ''Z'']]) n then types
          else setAdd n types)"

text \<open>
  One \<open>exec\<close> loop of \<open>extractTypesFromBody\<close>: \<open>pick\<close> is the name the body of the loop
  hands to \<open>addTypeIfValid\<close>, \<open>None\<close> when it goes on to the next match before that.
\<close>

definition scanTypes ::
  "rx \<Rightarrow> (mstate \<times> mstate \<Rightarrow> string option) \<Rightarrow> string \<Rightarrow> string list \<Rightarrow> string list option" where
  "scanTypes pattern pick sourceCode types =
     map_option (\<lambda>matches. fold (\<lambda>match. addTypeIfValid (pick match)) matches types)
       (execAll pattern [] sourceCode)"

text \<open>\<open>match[1] || match[2]\<close>\<close>

definition firstOrSecond :: "mstate \<times> mstate \<Rightarrow> string option" where
  "firstOrSecond match =
     (case matchGroup match 1 of
        Some n \<Rightarrow> if n \<noteq> [] then Some n else matchGroup match 2
      | None \<Rightarrow> matchGroup match 2)"

text \<open>
  The last loop: \<open>if (name === name.toUpperCase() && !name.startsWith('I')) continue\<close>.
\<close>

definition genericName :: "mstate \<times> mstate \<Rightarrow> string option" where
  "genericName match =
     (case matchGroup match 1 of
        None \<Rightarrow> None
      | Some name \<Rightarrow>
          if name = toUpperCase name \<and> \<not> startsWith name ''I'' then None else Some name)"

definition extractTypesFromBody :: "string \<Rightarrow> string list \<Rightarrow> string list option" where
  "extractTypesFromBody sourceCode types =
     Option.bind (scanTypes varDeclPattern1 (\<lambda>match. matchGroup match 1) sourceCode types)
      (\<lambda>types. Option.bind (scanTypes varDeclPattern2 (\<lambda>match. matchGroup match 1) sourceCode types)
      (\<lambda>types. Option.bind (scanTypes structInstPattern (\<lambda>match. matchGroup match 1) sourceCode types)
      (\<lambda>types. Option.bind (scanTypes enumAccessPattern (\<lambda>match. matchGroup match 1) sourceCode types)
      (\<lambda>types. Option.bind (scanTypes typeComparePattern firstOrSecond sourceCode types)
      (\<lambda>types. scanTypes genericPattern genericName sourceCode types)))))"

definition extractAllTypeNames :: "FunctionInfo \<Rightarrow> string list option" where
  "extractAllTypeNames functionInfo =
     (let types = fold (\<lambda>param. extractFromTypeName (p_typeName param))
                    (f_parameters functionInfo) [];
          types = fold (\<lambda>param. extractFromTypeName (p_typeName param))
                    (f_returnParameters functionInfo) types
      in extractTypesFromBody (f_fullSource functionInfo) types)"

section \<open>Type resolver: resolution (typeResolver.ts)\<close>

text \<open>\<open>contractName && contract.name !== contractName\<close>: an empty qualifier is falsy.\<close>

definition skipsContract :: "string option \<Rightarrow> ContractInfo \<Rightarrow> bool" where
  "skipsContract contractName contract =
     (case contractName of
        None \<Rightarrow> False
      | Some q \<Rightarrow> q \<noteq> [] \<and> c_name contract \<noteq> q)"

text \<open>\<open>contractName ? `${contractName}.${typeName}` : typeName\<close>.\<close>

definition referenceName :: "string option \<Rightarrow> string \<Rightarrow> string" where
  "referenceName contractName typeName =
     (case contractName of
        None \<Rightarrow> typeName
      | Some q \<Rightarrow> if q \<noteq> [] then q @ ''.'' @ typeName else typeName)"

definition findTypeInContract ::
  "string \<Rightarrow> string option \<Rightarrow> ContractInfo \<Rightarrow> TypeReference option" where
  "findTypeInContract typeName contractName contract =
     (if skipsContract contractName contract then None
      else case find (\<lambda>struct. s_name struct = typeName) (c_structs contract) of
          Some struct \<Rightarrow>
            Some \<lparr>t_name = referenceName contractName typeName, t_kind = KStruct,
                  t_definition = Some (StructDef struct)\<rparr>
        | None \<Rightarrow>
            (case find (\<lambda>enumDef. e_name enumDef = typeName) (c_enums contract) of
               Some enumDef \<Rightarrow>
                 Some \<lparr>t_name = referenceName contractName typeName, t_kind = KEnum,
                       t_definition = Some (EnumDef enumDef)\<rparr>
             | None \<Rightarrow> None))"

definition findTypeInFile ::
  "string \<Rightarrow> string option \<Rightarrow> ParsedFile \<Rightarrow> TypeReference option" where
  "findTypeInFile typeName contractName file =
     firstSome (findTypeInContract typeName contractName) (contracts file)"

definition resolveType :: "string \<Rightarrow> ParsedFile \<Rightarrow> Workspace \<Rightarrow> TypeReference option" where
  "resolveType typeName currentFile workspaceFiles =
     (let localName = localNameOf typeName;
          contractName = qualifierOf typeName
      in case findTypeInFile localName contractName currentFile of
           Some localResult \<Rightarrow> Some localResult
         | None \<Rightarrow>
             firstSome (\<lambda>(path, parsedFile).
                 if path = filePath currentFile then None
                 else findTypeInFile localName contractName parsedFile)
               workspaceFiles)"

definition resolveSingleType :: "string \<Rightarrow> Workspace \<Rightarrow> TypeReference option" where
  "resolveSingleType typeName workspaceFiles =
     (let localName = localNameOf typeName;
          contractName = qualifierOf typeName
      in firstSome (\<lambda>(path, parsedFile). findTypeInFile localName contractName parsedFile)
           workspaceFiles)"

definition typeExists :: "string \<Rightarrow> Workspace \<Rightarrow> bool" where
  "typeExists typeName workspaceFiles = (resolveSingleType typeName workspaceFiles \<noteq> None)"

text \<open>
  The loop of \<open>resolveTypes\<close> over the candidate names, with the set \<open>seenTypes\<close>.
\<close>

fun resolveNames ::
  "string list \<Rightarrow> ParsedFile \<Rightarrow> Workspace \<Rightarrow> string list \<Rightarrow> TypeReference list" where
  "resolveNames [] currentFile workspaceFiles seenTypes = []"
| "resolveNames (typeName # rest) currentFile workspaceFiles seenTypes =
     (let normalizedName = normalizedNameOf typeName in
      if normalizedName \<in> set seenTypes then
        resolveNames rest currentFile workspaceFiles seenTypes
      else
        (case resolveType typeName currentFile workspaceFiles of
           Some reference \<Rightarrow>
             if t_definition reference \<noteq> None then
               reference # resolveNames rest currentFile workspaceFiles (normalizedName # seenTypes)
             else resolveNames rest currentFile workspaceFiles (normalizedName # seenTypes)
         | None \<Rightarrow> resolveNames rest currentFile workspaceFiles (normalizedName # seenTypes)))"

text \<open>\<open>None\<close> when an \<open>exec\<close> loop of the scan of the source does not end.\<close>

definition resolveTypes ::
  "FunctionInfo \<Rightarrow> ParsedFile \<Rightarrow> Workspace \<Rightarrow> TypeReference list option" where
  "resolveTypes functionInfo currentFile workspaceFiles =
     map_option (\<lambda>typeNames. resolveNames typeNames currentFile workspaceFiles [])
       (extractAllTypeNames functionInfo)"

section \<open>Inheritance resolver (inheritanceResolver.ts)\<close>

text \<open>
  The object literal that \<open>findMethodInContract\<close> returns.
\<close>

record ImplementationInfo =
  im_contractName :: string
  im_contractKind :: ContractKind
  im_functionInfo :: FunctionInfo
  im_filePath :: string
  im_isInherited :: bool
  im_inheritanceChain :: "string list"

text \<open>
  A \<open>Map\<close> is an association list in insertion order with pairwise different keys:
  \<open>map.set(k, v)\<close> replaces the value of a key in place, or appends the entry, and
  \<open>map.get(k)\<close> is \<^const>\<open>map_of\<close>.
\<close>

fun mapSet :: "'k \<Rightarrow> 'v \<Rightarrow> ('k \<times> 'v) list \<Rightarrow> ('k \<times> 'v) list" where
  "mapSet k v [] = [(k, v)]"
| "mapSet k v ((k', v') # rest) =
     (if k' = k then (k, v) # rest else (k', v') # mapSet k v rest)"

text \<open>The three maps of the resolver.\<close>

record InheritanceResolver =
  contractMap :: "(string \<times> ContractInfo) list"
  inheritedBy :: "(string \<times> string list) list"
  inheritanceChains :: "(string \<times> string list) list"

text \<open>
  \<open>computeInheritanceChain\<close>: each recursive call gets a copy of \<open>visited\<close>, which then
  holds the names on the path from the first contract.
\<close>

function computeInheritanceChain ::
  "(string \<times> ContractInfo) list \<Rightarrow> string \<Rightarrow> string list \<Rightarrow> string list" where
  "computeInheritanceChain cm contractName visited =
     (if contractName \<in> set visited then []
      else
        (case map_of cm contractName of
           None \<Rightarrow> [contractName]
         | Some contract \<Rightarrow>
             fold (\<lambda>baseName chain.
                     fold (\<lambda>name chain. if name \<in> set chain then chain else chain @ [name])
                       (computeInheritanceChain cm baseName (setAdd contractName visited)) chain)
               (c_baseContracts contract) [contractName]))"
  by pat_completeness auto
termination
proof (relation "measure (\<lambda>(cm, contractName, visited). card (fst ` set cm - set visited))")
  show "wf (measure (\<lambda>(cm, contractName, visited). card (fst ` set cm - set visited)))"
    by simp
next
  fix cm :: "(string \<times> ContractInfo) list" and contractName visited contract baseName chain
  assume "contractName \<notin> set visited" and "map_of cm contractName = Some contract"
  then have "contractName \<in> fst ` set cm - set visited"
    using map_of_SomeD[of cm contractName contract] image_eqI[of contractName fst "(contractName, contract)" "set cm"]
    by simp
  then have "fst ` set cm - set (setAdd contractName visited) \<subset> fst ` set cm - set visited"
    by (auto simp: setAdd_def)
  then have "card (fst ` set cm - set (setAdd contractName visited))
               < card (fst ` set cm - set visited)"
    by (intro psubset_card_mono) auto
  then show "((cm, baseName, setAdd contractName visited), (cm, contractName, visited))
               \<in> measure (\<lambda>(cm, contractName, visited). card (fst ` set cm - set visited))"
    by simp
qed

declare computeInheritanceChain.simps [simp del]

text \<open>The three passes of \<open>buildInheritanceGraph\<close>.\<close>

definition collectContracts :: "Workspace \<Rightarrow> (string \<times> ContractInfo) list" where
  "collectContracts workspaceFiles =
     fold (\<lambda>(path, parsedFile) cm.
             fold (\<lambda>contract cm. mapSet (c_name contract) contract cm) (contracts parsedFile) cm)
       workspaceFiles []"

definition addInheritor ::
  "string \<Rightarrow> string \<Rightarrow> (string \<times> string list) list \<Rightarrow> (string \<times> string list) list" where
  "addInheritor name baseName inh =
     mapSet baseName
       (setAdd name (case map_of inh baseName of None \<Rightarrow> [] | Some inheritors \<Rightarrow> inheritors))
       inh"

definition collectInherited :: "(string \<times> ContractInfo) list \<Rightarrow> (string \<times> string list) list" where
  "collectInherited cm =
     fold (\<lambda>(name, contract) inh. fold (addInheritor name) (c_baseContracts contract) inh) cm []"

definition collectChains :: "(string \<times> ContractInfo) list \<Rightarrow> (string \<times> string list) list" where
  "collectChains cm =
     fold (\<lambda>(name, contract) chains. mapSet name (computeInheritanceChain cm name []) chains) cm []"

definition buildInheritanceGraph :: "Workspace \<Rightarrow> InheritanceResolver" where
  "buildInheritanceGraph workspaceFiles =
     (let cm = collectContracts workspaceFiles in
      \<lparr>contractMap = cm, inheritedBy = collectInherited cm, inheritanceChains = collectChains cm\<rparr>)"

text \<open>
  \<open>getImplementingContracts\<close>. The recursion of \<open>collectInheritors\<close> has no test that ends
  it on a name already in \<open>result\<close>; the first argument bounds the depth of the call stack,
  and \<open>None\<close> is the stack exhausted.
\<close>

fun collectInheritors ::
    "nat \<Rightarrow> (string \<times> string list) list \<Rightarrow> string \<Rightarrow> string list \<Rightarrow> string list option"
  and collectEach ::
    "nat \<Rightarrow> (string \<times> string list) list \<Rightarrow> string list \<Rightarrow> string list \<Rightarrow> string list option"
where
  "collectInheritors 0 inh name result = None"
| "collectInheritors (Suc depth) inh name result =
     (case map_of inh name of
        None \<Rightarrow> Some result
      | Some inheritors \<Rightarrow> collectEach depth inh inheritors result)"
| "collectEach depth inh [] result = Some result"
| "collectEach depth inh (inheritor # rest) result =
     (case collectInheritors depth inh inheritor (setAdd inheritor result) of
        None \<Rightarrow> None
      | Some result' \<Rightarrow> collectEach depth inh rest result')"

definition getImplementingContracts ::
  "nat \<Rightarrow> InheritanceResolver \<Rightarrow> string \<Rightarrow> string list option" where
  "getImplementingContracts depth this interfaceName =
     collectInheritors depth (inheritedBy this) interfaceName []"

text \<open>\<open>func.body && func.body.trim() !== ''\<close>\<close>

definition hasBody :: "FunctionInfo \<Rightarrow> bool" where
  "hasBody f = (f_body f \<noteq> [] \<and> trim (f_body f) \<noteq> [])"

fun findInChain ::
  "InheritanceResolver \<Rightarrow> string \<Rightarrow> string \<Rightarrow> string list \<Rightarrow> string list
   \<Rightarrow> ImplementationInfo option" where
  "findInChain this contractName methodName chain [] = None"
| "findInChain this contractName methodName chain (name # rest) =
     (case map_of (contractMap this) name of
        None \<Rightarrow> findInChain this contractName methodName chain rest
      | Some contract \<Rightarrow>
          if c_kind contract = KInterface then findInChain this contractName methodName chain rest
          else
            (case find (\<lambda>f. f_name f = methodName) (c_functions contract) of
               Some func \<Rightarrow>
                 if hasBody func then
                   Some \<lparr>im_contractName = name, im_contractKind = c_kind contract,
                         im_functionInfo = func, im_filePath = c_filePath contract,
                         im_isInherited = (name \<noteq> contractName), im_inheritanceChain = chain\<rparr>
                 else findInChain this contractName methodName chain rest
             | None \<Rightarrow> findInChain this contractName methodName chain rest))"

definition findMethodInContract ::
  "InheritanceResolver \<Rightarrow> string \<Rightarrow> string \<Rightarrow> ImplementationInfo option" where
  "findMethodInContract this contractName methodName =
     (let chain = (case map_of (inheritanceChains this) contractName of
                     Some c \<Rightarrow> c | None \<Rightarrow> [contractName])
      in findInChain this contractName methodName chain chain)"

fun implementationsOf ::
  "InheritanceResolver \<Rightarrow> string \<Rightarrow> string list \<Rightarrow> ImplementationInfo list" where
  "implementationsOf this methodName [] = []"
| "implementationsOf this methodName (contractName # rest) =
     (case map_of (contractMap this) contractName of
        None \<Rightarrow> implementationsOf this methodName rest
      | Some contract \<Rightarrow>
          if c_kind contract = KInterface then implementationsOf this methodName rest
          else
            (case findMethodInContract this contractName methodName of
               Some impl \<Rightarrow> impl # implementationsOf this methodName rest
             | None \<Rightarrow> implementationsOf this methodName rest))"

definition findImplementations ::
  "nat \<Rightarrow> InheritanceResolver \<Rightarrow> string \<Rightarrow> string \<Rightarrow> ImplementationInfo list option" where
  "findImplementations depth this interfaceName methodName =
     map_option (implementationsOf this methodName)
       (getImplementingContracts depth this interfaceName)"

section \<open>Tree walker (astTraverser.ts)\<close>

text \<open>
  The values the walker meets in a syntax tree. An object carries its \<open>type\<close> (when it has
  one), its \<open>loc\<close> (when it has one) and its other properties in the order of
  \<open>Object.keys\<close>; a node is an object with a type. A visitor callback returns such a
  value too.
\<close>

datatype jv =
    Obj "string option" "SourceLocation option" "(string \<times> jv) list"
  | Arr "jv list"
  | Str string
  | Num int
  | Bool bool
  | Null
  | Undefined

datatype error = TypeError

fun truthy :: "jv \<Rightarrow> bool" where
  "truthy (Obj t l ps) = True"
| "truthy (Arr vs) = True"
| "truthy (Str s) = (s \<noteq> [])"
| "truthy (Num n) = (n \<noteq> 0)"
| "truthy (Bool b) = b"
| "truthy Null = False"
| "truthy Undefined = False"

text \<open>\<open>node && typeof node === 'object' && node.type\<close>\<close>

fun isNode :: "jv \<Rightarrow> bool" where
  "isNode (Obj (Some t) l ps) = (t \<noteq> [])"
| "isNode v = False"

text \<open>The property key of \<open>visitor[node.type]\<close>; a missing type reads as \<open>undefined\<close>.\<close>

fun typeKey :: "jv \<Rightarrow> string" where
  "typeKey (Obj (Some t) l ps) = t"
| "typeKey v = ''undefined''"

text \<open>
  What \<open>traverseChildren\<close> does with a node, in order: a call of \<open>traverse\<close> on a value, or
  a \<open>for ... of\<close> over a value that cannot be iterated, which throws.
\<close>

datatype step = Visit jv | Throw

text \<open>\<open>this.traverseArray(nodeAny.key, visitor, node)\<close>\<close>

fun arraySteps :: "jv \<Rightarrow> step list" where
  "arraySteps (Arr vs) = map Visit (filter isNode vs)"
| "arraySteps (Obj t l ps) = [Throw]"
| "arraySteps (Str s) = []"
| "arraySteps (Num n) = (if n = 0 then [] else [Throw])"
| "arraySteps (Bool b) = (if b then [Throw] else [])"
| "arraySteps Null = []"
| "arraySteps Undefined = []"

text \<open>
  The child slots of a node kind: \<open>ArrSlot k\<close> is \<open>this.traverseArray(nodeAny.k, ...)\<close>,
  \<open>Req k\<close> is \<open>this.traverse(nodeAny.k, ...)\<close> and \<open>Opt k\<close> is the same under
  \<open>if (nodeAny.k)\<close>.
\<close>

datatype slot = ArrSlot string | Req string | Opt string

definition slotTable :: "(string \<times> slot list) list" where
  "slotTable =
     [(''SourceUnit'', [ArrSlot ''children'']),
      (''ContractDefinition'', [ArrSlot ''baseContracts'', ArrSlot ''subNodes'']),
      (''FunctionDefinition'',
         [ArrSlot ''parameters'', ArrSlot ''returnParameters'', ArrSlot ''modifiers'', Opt ''body'']),
      (''ModifierDefinition'', [ArrSlot ''parameters'', Opt ''body'']),
      (''VariableDeclaration'', [Opt ''typeName'', Opt ''expression'']),
      (''StructDefinition'', [ArrSlot ''members'']),
      (''Block'', [ArrSlot ''statements'']),
      (''IfStatement'', [Req ''condition'', Req ''trueBody'', Opt ''falseBody'']),
      (''WhileStatement'', [Req ''condition'', Req ''body'']),
      (''DoWhileStatement'', [Req ''condition'', Req ''body'']),
      (''ForStatement'',
         [Opt ''initExpression'', Opt ''conditionExpression'', Opt ''loopExpression'', Req ''body'']),
      (''TryStatement'',
         [Req ''expression'', ArrSlot ''returnParameters'', Req ''body'', ArrSlot ''catchClauses'']),
      (''CatchClause'', [ArrSlot ''parameters'', Req ''body'']),
      (''ReturnStatement'', [Opt ''expression'']),
      (''EmitStatement'', [Opt ''expression'']),
      (''RevertStatement'', [Opt ''expression'']),
      (''ExpressionStatement'', [Opt ''expression'']),
      (''VariableDeclarationStatement'', [ArrSlot ''variables'', Opt ''initialValue'']),
      (''FunctionCall'', [Req ''expression'', ArrSlot ''arguments'', ArrSlot ''names'']),
      (''MemberAccess'', [Req ''expression'']),
      (''IndexAccess'', [Req ''base'', Opt ''index'']),
      (''BinaryOperation'', [Req ''left'', Req ''right'']),
      (''Assignment'', [Req ''left'', Req ''right'']),
      (''UnaryOperation'', [Req ''subExpression'']),
      (''Conditional'', [Req ''condition'', Req ''trueExpression'', Req ''falseExpression'']),
      (''TupleExpression'', [ArrSlot ''components'']),
      (''ArrayTypeName'', [Req ''baseTypeName'', Opt ''length'']),
      (''Mapping'', [Req ''keyType'', Req ''valueType'']),
      (''NewExpression'', [Req ''typeName'']),
      (''ModifierInvocation'', [ArrSlot ''arguments'']),
      (''InheritanceSpecifier'', [Req ''baseName'', ArrSlot ''arguments'']),
      (''UsingForDeclaration'', [Opt ''typeName'']),
      (''StateVariableDeclaration'', [ArrSlot ''variables'', Opt ''initialValue'']),
      (''EventDefinition'', [ArrSlot ''parameters'']),
      (''ErrorDefinition'', [ArrSlot ''parameters'']),
      (''Identifier'', []), (''NumberLiteral'', []), (''StringLiteral'', []),
      (''BooleanLiteral'', []), (''HexLiteral'', []), (''ElementaryTypeName'', []),
      (''UserDefinedTypeName'', []), (''PragmaDirective'', []), (''ImportDirective'', []),
      (''EnumValue'', []), (''BreakStatement'', []), (''ContinueStatement'', []),
      (''PlaceholderStatement'', []), (''AssemblyBlock'', []), (''UncheckedStatement'', [])]"

text \<open>\<open>nodeAny.key\<close>\<close>

definition property :: "(string \<times> jv) list \<Rightarrow> string \<Rightarrow> jv" where
  "property ps k = (case map_of ps k of Some v \<Rightarrow> v | None \<Rightarrow> Undefined)"

fun slotSteps :: "(string \<times> jv) list \<Rightarrow> slot \<Rightarrow> step list" where
  "slotSteps ps (ArrSlot k) = arraySteps (property ps k)"
| "slotSteps ps (Req k) = [Visit (property ps k)]"
| "slotSteps ps (Opt k) = (if truthy (property ps k) then [Visit (property ps k)] else [])"

text \<open>
  The default case of the switch, for each value of \<open>Object.keys(nodeAny)\<close>: an array goes
  to \<open>traverseArray\<close>, a node to \<open>traverse\<close>. The type and the \<open>loc\<close> of an object are
  neither.
\<close>

fun scanSteps :: "jv \<Rightarrow> step list" where
  "scanSteps (Arr vs) = arraySteps (Arr vs)"
| "scanSteps v = (if isNode v then [Visit v] else [])"

fun childSteps :: "jv \<Rightarrow> step list" where
  "childSteps (Obj (Some t) l ps) =
     (case map_of slotTable t of
        Some slots \<Rightarrow> concat (map (slotSteps ps) slots)
      | None \<Rightarrow> concat (map (\<lambda>(k, v). scanSteps v) ps))"
| "childSteps (Obj None l ps) = concat (map (\<lambda>(k, v). scanSteps v) ps)"
| "childSteps (Arr vs) = concat (map scanSteps vs)"
| "childSteps v = []"

text \<open>The steps in order, until one throws.\<close>

fun forSteps :: "step list \<Rightarrow> (jv \<Rightarrow> 's \<Rightarrow> error + 's) \<Rightarrow> 's \<Rightarrow> error + 's" where
  "forSteps [] f st = Inr st"
| "forSteps (Throw # rest) f st = Inl TypeError"
| "forSteps (Visit c # rest) f st =
     (case f c st of Inl e \<Rightarrow> Inl e | Inr st' \<Rightarrow> forSteps rest f st')"

lemma forSteps_cong [fundef_cong]:
  "steps = steps' \<Longrightarrow> (\<And>c s. Visit c \<in> set steps' \<Longrightarrow> f c s = g c s) \<Longrightarrow> st = st' \<Longrightarrow>
     forSteps steps f st = forSteps steps' g st'"
proof (induction steps' arbitrary: steps st st')
  case Nil
  then show ?case by simp
next
  case (Cons x xs)
  show ?case
  proof (cases x)
    case Throw
    with Cons.prems show ?thesis by simp
  next
    case (Visit c)
    have "forSteps xs f s = forSteps xs g s" for s
      by (rule Cons.IH) (simp_all add: Cons.prems)
    with Cons.prems Visit show ?thesis by (simp split: sum.splits)
  qed
qed

lemma size_element: "x \<in> set vs \<Longrightarrow> size x < Suc (size_list size vs)"
  by (induction vs) auto

lemma size_property: "size (property ps k) < size (Obj t l ps)"
proof -
  have "(k', x) \<in> set ps \<Longrightarrow> size x < size (Obj t l ps)" for k' x
    by (induction ps) auto
  then show ?thesis
    by (auto simp: property_def split: option.splits dest: map_of_SomeD)
qed

lemma size_arraySteps: "Visit c \<in> set (arraySteps v) \<Longrightarrow> size c < size v"
  by (cases v) (auto simp: size_element split: if_splits)

lemma size_scanSteps: "Visit c \<in> set (scanSteps v) \<Longrightarrow> size c \<le> size v"
  by (cases v) (auto simp: size_element less_imp_le split: if_splits)

lemma size_slotSteps: "Visit c \<in> set (slotSteps ps s) \<Longrightarrow> size c < size (Obj t l ps)"
proof (cases s)
  case (ArrSlot k)
  assume "Visit c \<in> set (slotSteps ps s)"
  with ArrSlot have "size c < size (property ps k)" by (simp add: size_arraySteps)
  with size_property[of ps k t l] show ?thesis by linarith
next
  case (Req k)
  assume "Visit c \<in> set (slotSteps ps s)"
  with Req size_property[of ps k t l] show ?thesis by simp
next
  case (Opt k)
  assume "Visit c \<in> set (slotSteps ps s)"
  with Opt size_property[of ps k t l] show ?thesis by (simp split: if_splits)
qed

lemma size_scanProps:
  "Visit c \<in> set (concat (map (\<lambda>(k, v). scanSteps v) ps)) \<Longrightarrow> size c < size (Obj t l ps)"
proof -
  assume "Visit c \<in> set (concat (map (\<lambda>(k, v). scanSteps v) ps))"
  then obtain k v where kv: "(k, v) \<in> set ps" "Visit c \<in> set (scanSteps v)" by auto
  have "(k', x) \<in> set ps \<Longrightarrow> size x < size (Obj t l ps)" for k' x
    by (induction ps) auto
  with kv size_scanSteps[of c v] show ?thesis by fastforce
qed

lemma size_childSteps: "Visit c \<in> set (childSteps v) \<Longrightarrow> size c < size v"
proof (cases v)
  case (Obj t l ps)
  assume c: "Visit c \<in> set (childSteps v)"
  show ?thesis
  proof (cases t)
    case None
    with c Obj show ?thesis using size_scanProps[of c ps t l] by simp
  next
    case (Some ty)
    show ?thesis
    proof (cases "map_of slotTable ty")
      case None
      with c Obj Some show ?thesis using size_scanProps[of c ps t l] by simp
    next
      case (Some slots)
      with c Obj \<open>t = Some ty\<close> obtain s where "Visit c \<in> set (slotSteps ps s)" by auto
      with Obj show ?thesis by (simp only: size_slotSteps)
    qed
  qed
next
  case (Arr vs)
  assume "Visit c \<in> set (childSteps v)"
  with Arr obtain x where x: "x \<in> set vs" "Visit c \<in> set (scanSteps x)" by auto
  with size_scanSteps[of c x] size_element[of x vs] Arr show ?thesis by simp
qed simp_all

text \<open>
  A visitor maps a node type to the value of \<open>visitor[node.type]\<close>, if that is truthy.
  Called as \<open>callback(node, parent)\<close> it gets the node, the parent (\<open>Null\<close> at the root) and
  the state its closure reads and writes; it returns its value and the new state, or it
  throws. A truthy value that is no function throws a \<open>TypeError\<close> when it is called.
\<close>

type_synonym 's callback = "jv \<Rightarrow> jv \<Rightarrow> 's \<Rightarrow> error + (jv \<times> 's)"

type_synonym 's visitor = "string \<Rightarrow> 's callback option"

function traverse :: "jv \<Rightarrow> 's visitor \<Rightarrow> jv \<Rightarrow> 's \<Rightarrow> error + 's" where
  "traverse node visitor parent st =
     (if node = Null \<or> node = Undefined then Inl TypeError
      else
        (case visitor (typeKey node) of
           Some callback \<Rightarrow>
             (case callback node parent st of
                Inl e \<Rightarrow> Inl e
              | Inr (shouldStop, st') \<Rightarrow>
                  if shouldStop = Bool True then Inr st'
                  else forSteps (childSteps node) (\<lambda>child. traverse child visitor node) st')
         | None \<Rightarrow> forSteps (childSteps node) (\<lambda>child. traverse child visitor node) st))"
  by pat_completeness auto
termination
  by (relation "measure (\<lambda>(node, visitor, parent, st). size node)") (auto simp: size_childSteps)

declare traverse.simps [simp del]

text \<open>What a query returns from the final state of its closure, unless the walk threw.\<close>

definition onResult :: "('a \<Rightarrow> 'b) \<Rightarrow> error + 'a \<Rightarrow> error + 'b" where
  "onResult h r = (case r of Inl e \<Rightarrow> Inl e | Inr x \<Rightarrow> Inr (h x))"

text \<open>
  The visitors of the three queries are object literals with one key of their own. Every
  other key is looked up in \<open>Object.prototype\<close>, so a node whose type is the name of a member
  of the prototype has a callback too. \<open>prototypeMember\<close> is what such a member does when it
  is called with \<open>this\<close> undefined and a node, an object, as its first argument:
  \<open>constructor\<close> is \<open>Object\<close> and returns the node, \<open>toString\<close> returns
  \<open>[object Undefined]\<close>, the other functions throw a \<open>TypeError\<close> when they make an object
  of \<open>this\<close>, and \<open>__proto__\<close> reads as the prototype, an object that cannot be called.
\<close>

definition prototypeMember :: "string \<Rightarrow> (jv \<Rightarrow> error + jv) option" where
  "prototypeMember k =
     (if k = ''constructor'' then Some (\<lambda>node. Inr node)
      else if k = ''toString'' then Some (\<lambda>node. Inr (Str ''[object Undefined]''))
      else if k \<in> set [''toLocaleString'', ''valueOf'', ''hasOwnProperty'', ''isPrototypeOf'',
                        ''propertyIsEnumerable'', ''__defineGetter__'', ''__defineSetter__'',
                        ''__lookupGetter__'', ''__lookupSetter__'', ''__proto__'']
      then Some (\<lambda>node. Inl TypeError)
      else None)"

definition objectLiteral :: "string \<Rightarrow> 's callback \<Rightarrow> 's visitor" where
  "objectLiteral key callback k =
     (if k = key then Some callback
      else
        (case prototypeMember k of
           Some member \<Rightarrow>
             Some (\<lambda>node parent st.
                     case member node of Inl e \<Rightarrow> Inl e | Inr v \<Rightarrow> Inr (v, st))
         | None \<Rightarrow> None))"

definition findAll :: "jv \<Rightarrow> string \<Rightarrow> error + jv list" where
  "findAll node nodeType =
     traverse node
       (objectLiteral nodeType (\<lambda>n parent results. Inr (Undefined, results @ [n])))
       Null []"

definition findFirst :: "jv \<Rightarrow> string \<Rightarrow> error + jv" where
  "findFirst node nodeType =
     traverse node (objectLiteral nodeType (\<lambda>n parent result. Inr (Bool True, n))) Null Null"

text \<open>
  Numbers are doubles. Line and column numbers are integers, and the sums, differences and
  products of integers that the code computes are integers rounded to the nearest double
  (to the even one of two that are equally near), or an infinity, or \<open>NaN\<close>. Every
  integer below \<open>2 ^ 53\<close> in magnitude is a double; a larger one is rounded to 53 binary
  digits, and to an infinity from \<open>2 ^ 1024\<close> on.
\<close>

datatype number = Finite int | PosInfinity | NegInfinity | NaN

function bitLength :: "int \<Rightarrow> nat" where
  "bitLength n = (if n \<le> 0 then 0 else Suc (bitLength (n div 2)))"
  by pat_completeness auto
termination
  by (relation "measure nat") auto

declare bitLength.simps [simp del]

definition roundLarge :: "int \<Rightarrow> number" where
  "roundLarge x =
     (let a = abs x;
          e = bitLength a - 53;
          q = a div 2 ^ e;
          r = a mod 2 ^ e;
          q' = (if 2 ^ e < 2 * r \<or> (2 * r = 2 ^ e \<and> odd q) then q + 1 else q);
          v = q' * 2 ^ e
      in if 2 ^ 1024 \<le> v then (if x < 0 then NegInfinity else PosInfinity)
         else Finite (if x < 0 then - v else v))"

definition roundDouble :: "int \<Rightarrow> number" where
  "roundDouble x = (if abs x < 2 ^ 53 then Finite x else roundLarge x)"

text \<open>\<open>x * 1000\<close>, \<open>x + y\<close> and \<open>x < y\<close>\<close>

fun times1000 :: "number \<Rightarrow> number" where
  "times1000 (Finite d) = roundDouble (d * 1000)"
| "times1000 PosInfinity = PosInfinity"
| "times1000 NegInfinity = NegInfinity"
| "times1000 NaN = NaN"

fun plusNumber :: "number \<Rightarrow> number \<Rightarrow> number" where
  "plusNumber (Finite a) (Finite b) = roundDouble (a + b)"
| "plusNumber NaN y = NaN"
| "plusNumber x NaN = NaN"
| "plusNumber PosInfinity NegInfinity = NaN"
| "plusNumber NegInfinity PosInfinity = NaN"
| "plusNumber PosInfinity y = PosInfinity"
| "plusNumber NegInfinity y = NegInfinity"
| "plusNumber (Finite a) y = y"

fun lessNumber :: "number \<Rightarrow> number \<Rightarrow> bool" where
  "lessNumber (Finite a) (Finite b) = (a < b)"
| "lessNumber (Finite a) PosInfinity = True"
| "lessNumber NegInfinity (Finite b) = True"
| "lessNumber NegInfinity PosInfinity = True"
| "lessNumber x y = False"

text \<open>The test on \<open>loc\<close> and the \<open>range\<close> of \<open>findAtPosition\<close>.\<close>

definition containsPosition :: "int \<Rightarrow> int \<Rightarrow> SourceLocation \<Rightarrow> bool" where
  "containsPosition ln col loc =
     (ln \<ge> line (start loc) \<and> ln \<le> line (end loc)
      \<and> (ln > line (start loc) \<or> col \<ge> column (start loc))
      \<and> (ln < line (end loc) \<or> col \<le> column (end loc)))"

definition rangeOf :: "SourceLocation \<Rightarrow> number" where
  "rangeOf loc =
     plusNumber (times1000 (roundDouble (line (end loc) - line (start loc))))
       (roundDouble (column (end loc) - column (start loc)))"

text \<open>
  The callback of \<open>findAtPosition\<close>; its state is \<open>result\<close> and \<open>smallestRange\<close>, which is
  \<open>Infinity\<close> at first.
\<close>

definition positionCallback :: "int \<Rightarrow> int \<Rightarrow> (jv \<times> number) callback" where
  "positionCallback ln col n parent st =
     Inr (Undefined,
          case n of
            Obj t (Some loc) ps \<Rightarrow>
              if containsPosition ln col loc then
                (let range = rangeOf loc in
                 if lessNumber range (snd st) then (n, range) else st)
              else st
          | _ \<Rightarrow> st)"

definition findAtPosition :: "jv \<Rightarrow> int \<Rightarrow> int \<Rightarrow> error + jv" where
  "findAtPosition node ln col =
     onResult fst
       (traverse node (objectLiteral ''FunctionDefinition'' (positionCallback ln col))
          Null (Null, PosInfinity))"
section \<open>Specification-side definitions and example inputs\<close>

text \<open>Every function of the workspace, in the order the point query scans them.\<close>

definition allFunctions :: "Workspace \<Rightarrow> FunctionInfo list" where
  "allFunctions workspaceFiles =
     concat (map c_functions (concat (map (\<lambda>(path, parsedFile). contracts parsedFile) workspaceFiles)))"

definition noLocation :: SourceLocation where
  "noLocation = \<lparr>start = \<lparr>line = 0, column = 0\<rparr>, end = \<lparr>line = 0, column = 0\<rparr>\<rparr>"

definition exFunction :: "string \<Rightarrow> string \<Rightarrow> string \<Rightarrow> FunctionInfo" where
  "exFunction n b src =
     \<lparr>f_name = n, f_visibility = ''internal'', f_stateMutability = None, f_parameters = [],
      f_returnParameters = [], f_modifiers = [], f_body = b, f_fullSource = src,
      f_location = noLocation, f_filePath = ''a.sol''\<rparr>"

definition exStruct :: "string \<Rightarrow> StructInfo" where
  "exStruct n =
     \<lparr>s_name = n, s_members = [], s_fullSource = ''struct'', s_location = noLocation,
      s_filePath = ''a.sol'', s_contractName = None\<rparr>"

definition exContract ::
  "string \<Rightarrow> ContractKind \<Rightarrow> string list \<Rightarrow> FunctionInfo list \<Rightarrow> StructInfo list \<Rightarrow> ContractInfo" where
  "exContract n k bases fs ss =
     \<lparr>c_name = n, c_kind = k, c_functions = fs, c_structs = ss, c_enums = [],
      c_stateVariables = [], c_baseContracts = bases, c_location = noLocation,
      c_filePath = ''a.sol''\<rparr>"

definition exFile :: "string \<Rightarrow> ContractInfo list \<Rightarrow> ParsedFile" where
  "exFile path cs = \<lparr>filePath = path, contracts = cs, pf_imports = [], pf_pragmas = []\<rparr>"

definition otherContractWorkspace :: Workspace where
  "otherContractWorkspace =
     [(''a.sol'', exFile ''a.sol''
        [exContract ''X'' KContract [] [] [exStruct ''U''],
         exContract ''Y'' KContract [] [exFunction ''f'' ''{ }'' ''function f() { }''] [exStruct ''T'']])]"

text \<open>
  An identifier occurrence of a source text is a run of word characters (letters, digits,
  \<open>_\<close>) that starts with a letter or \<open>_\<close> and is maximal: no word character stands right
  before it or right after it. \<open>pre\<close> and \<open>post\<close> are the text before and after the
  occurrence.
\<close>

definition isWordChar :: "char \<Rightarrow> bool" where
  "isWordChar c =
     (inRange CHR ''a'' CHR ''z'' c \<or> inRange CHR ''A'' CHR ''Z'' c
      \<or> inRange CHR ''0'' CHR ''9'' c \<or> c = CHR ''_'')"

definition isStartChar :: "char \<Rightarrow> bool" where
  "isStartChar c = (inRange CHR ''a'' CHR ''z'' c \<or> inRange CHR ''A'' CHR ''Z'' c \<or> c = CHR ''_'')"

definition isIdentifierOccurrence :: "string \<Rightarrow> string \<Rightarrow> bool" where
  "isIdentifierOccurrence source w =
     (\<exists>pre post. source = pre @ w @ post \<and> w \<noteq> [] \<and> isStartChar (hd w)
        \<and> list_all isWordChar w \<and> \<not> isWordAt (rev pre) \<and> \<not> isWordAt post)"

text \<open>
  The same for a text \<open>aft\<close> that follows the text \<open>bef\<close> (held reversed, as the matcher
  holds it), and a scanner that lists these occurrences from left to right.
\<close>

definition occursIn :: "string \<Rightarrow> string \<Rightarrow> string \<Rightarrow> bool" where
  "occursIn bef aft w =
     (\<exists>pre post. aft = pre @ w @ post \<and> w \<noteq> [] \<and> isStartChar (hd w)
        \<and> list_all isWordChar w \<and> \<not> isWordAt (rev pre @ bef) \<and> \<not> isWordAt post)"

function scanIdentifiers :: "string \<Rightarrow> string \<Rightarrow> string list" where
  "scanIdentifiers bef [] = []"
| "scanIdentifiers bef (c # xs) =
     (if isStartChar c \<and> \<not> isWordAt bef
      then (c # takeWhile isWordChar xs)
           # scanIdentifiers (rev (c # takeWhile isWordChar xs) @ bef) (dropWhile isWordChar xs)
      else scanIdentifiers (c # bef) xs)"
  by pat_completeness auto
termination
  by (relation "measure (\<lambda>(bef, aft). length aft)") (auto simp: length_dropWhile_le less_Suc_eq_le)

definition identifiersIn :: "string \<Rightarrow> string list" where
  "identifiersIn source = scanIdentifiers [] source"

text \<open>
  The state of the matcher after the identifier that starts with \<open>c\<close> at the head of the
  remaining text \<open>c # xs\<close> of \<open>st\<close>.
\<close>

definition identEnd :: "mstate \<Rightarrow> char \<Rightarrow> string \<Rightarrow> mstate" where
  "identEnd st c xs =
     \<lparr>consumed = rev (c # takeWhile isWordChar xs) @ consumed st,
      remaining = dropWhile isWordChar xs,
      caps = (1, c # takeWhile isWordChar xs) # caps st\<rparr>"

text \<open>
  A function that adds to the state variable \<open>total\<close>; its parameter \<open>owner1\<close> holds the
  name of the state variable \<open>owner\<close> inside a longer identifier.
\<close>

definition exStateVariable :: "string \<Rightarrow> StateVariableInfo" where
  "exStateVariable n =
     \<lparr>v_name = n, v_typeName = ''uint'', v_visibility = ''internal'', v_fullSource = ''uint'',
      v_location = noLocation, v_filePath = ''a.sol'', v_contractName = ''C''\<rparr>"

definition addFunction :: FunctionInfo where
  "addFunction =
     exFunction ''add'' ''{ total += owner1; }'' ''function add(uint owner1) { total += owner1; }''"

definition addContract :: ContractInfo where
  "addContract =
     (exContract ''C'' KContract [] [addFunction] [])
       \<lparr>c_stateVariables := [exStateVariable ''total'', exStateVariable ''owner'']\<rparr>"

text \<open>A function that calls a helper, itself and a function defined nowhere.\<close>

definition callerFunction :: FunctionInfo where
  "callerFunction =
     exFunction ''run'' ''{ _check(a); run(a); _missing(a); }''
       ''function run(uint a) { _check(a); run(a); _missing(a); }''"

definition calleeFunction :: FunctionInfo where
  "calleeFunction = exFunction ''_check'' ''{ }'' ''function _check(uint a) { }''"

definition callFile :: ParsedFile where
  "callFile = exFile ''a.sol'' [exContract ''C'' KContract [] [callerFunction, calleeFunction] []]"

definition checkCall :: FunctionCallInfo where
  "checkCall =
     \<lparr>fc_name = ''_check'', fc_expression = ''_check'', fc_arguments = [],
      fc_location = \<lparr>start = \<lparr>line = 0, column = 23\<rparr>, end = \<lparr>line = 0, column = 30\<rparr>\<rparr>,
      fc_resolvedFunction = Some calleeFunction\<rparr>"

text \<open>
  A function with a parameter of the struct type \<open>IDCard\<close>, whose name has the form of an
  interface name.
\<close>

definition cardFunction :: FunctionInfo where
  "cardFunction =
     (exFunction ''f'' ''{}'' ''function f(IDCard c) {}'')
       \<lparr>f_parameters := [\<lparr>p_name = ''c'', p_typeName = ''IDCard'', p_storageLocation = None\<rparr>]\<rparr>"

definition cardFile :: ParsedFile where
  "cardFile = exFile ''a.sol'' [exContract ''C'' KContract [] [cardFunction] [exStruct ''IDCard'']]"

text \<open>
  Resolution as the specification words it: the files in search order, in each the
  contracts in scope of the qualifier (a candidate is qualified when the text before its
  first dot is not empty), in each the structs and then the enums with the unqualified
  name; the first of them wins. The candidates are de-duplicated by their unqualified name.
\<close>

definition searchOrder :: "ParsedFile \<Rightarrow> Workspace \<Rightarrow> ParsedFile list" where
  "searchOrder currentFile workspaceFiles =
     currentFile # map snd (filter (\<lambda>(path, parsedFile). path \<noteq> filePath currentFile) workspaceFiles)"

definition inScope :: "string option \<Rightarrow> ContractInfo \<Rightarrow> bool" where
  "inScope qualifier contract =
     (case qualifier of None \<Rightarrow> True | Some q \<Rightarrow> q = [] \<or> c_name contract = q)"

definition matchesIn :: "string \<Rightarrow> string option \<Rightarrow> ContractInfo \<Rightarrow> TypeReference list" where
  "matchesIn localName qualifier contract =
     (if inScope qualifier contract then
        map (\<lambda>d. \<lparr>t_name = referenceName qualifier localName, t_kind = KStruct,
                  t_definition = Some (StructDef d)\<rparr>)
          (filter (\<lambda>d. s_name d = localName) (c_structs contract))
        @ map (\<lambda>d. \<lparr>t_name = referenceName qualifier localName, t_kind = KEnum,
                    t_definition = Some (EnumDef d)\<rparr>)
            (filter (\<lambda>d. e_name d = localName) (c_enums contract))
      else [])"

definition firstMatch :: "string \<Rightarrow> ParsedFile \<Rightarrow> Workspace \<Rightarrow> TypeReference option" where
  "firstMatch typeName currentFile workspaceFiles =
     (case concat (map (\<lambda>file. concat (map (matchesIn (localNameOf typeName) (qualifierOf typeName))
                                         (contracts file)))
                    (searchOrder currentFile workspaceFiles)) of
        [] \<Rightarrow> None
      | reference # _ \<Rightarrow> Some reference)"

function firstOccurrences :: "string list \<Rightarrow> string list" where
  "firstOccurrences [] = []"
| "firstOccurrences (n # ns) =
     n # firstOccurrences (filter (\<lambda>m. normalizedNameOf m \<noteq> normalizedNameOf n) ns)"
  by pat_completeness auto
termination
  by (relation "measure length") (auto simp: less_Suc_eq_le)

definition headOption :: "'a list \<Rightarrow> 'a option" where
  "headOption xs = (case xs of [] \<Rightarrow> None | x # _ \<Rightarrow> Some x)"

text \<open>
  The edges of the inheritance graph: \<open>(b, d)\<close> when \<open>inheritedBy\<close> lists \<open>d\<close> under \<open>b\<close>, and
  \<open>(d, b)\<close> when the contract the map holds for \<open>d\<close> declares the base \<open>b\<close>.
\<close>

definition inheritorEdges :: "(string \<times> string list) list \<Rightarrow> (string \<times> string) set" where
  "inheritorEdges inh = {(b, d). \<exists>ds. map_of inh b = Some ds \<and> d \<in> set ds}"

definition declaredBase :: "InheritanceResolver \<Rightarrow> (string \<times> string) set" where
  "declaredBase this =
     {(d, b). \<exists>c. map_of (contractMap this) d = Some c \<and> b \<in> set (c_baseContracts c)}"

text \<open>Two contracts that declare each other as a base, and a chain of three.\<close>

definition cyclicWorkspace :: Workspace where
  "cyclicWorkspace =
     [(''a.sol'', exFile ''a.sol''
        [exContract ''A'' KContract [''B''] [] [], exContract ''B'' KContract [''A''] [] []])]"

definition chainWorkspace :: Workspace where
  "chainWorkspace =
     [(''a.sol'', exFile ''a.sol''
        [exContract ''A'' KContract [] [] [], exContract ''B'' KContract [''A''] [] [],
         exContract ''C'' KContract [''B''] [] []])]"

text \<open>
  A contract implements a method when the function \<open>find\<close> gives for the name, the first
  one of that name, has a body.
\<close>

definition implementsMethod :: "ContractInfo \<Rightarrow> string \<Rightarrow> bool" where
  "implementsMethod contract methodName =
     (case find (\<lambda>f. f_name f = methodName) (c_functions contract) of
        None \<Rightarrow> False
      | Some func \<Rightarrow> hasBody func)"

text \<open>
  The entry for a contract that inherits the function \<open>func\<close> from the contract \<open>A\<close>, the
  chain being the one of the inheriting contract.
\<close>

definition inheritedImplementation ::
  "string \<Rightarrow> ContractInfo \<Rightarrow> FunctionInfo \<Rightarrow> string list \<Rightarrow> ImplementationInfo" where
  "inheritedImplementation A cA func chain =
     \<lparr>im_contractName = A, im_contractKind = c_kind cA, im_functionInfo = func,
      im_filePath = c_filePath cA, im_isInherited = True, im_inheritanceChain = chain\<rparr>"

text \<open>
  \<open>B\<close> is the sole inheritor of \<open>A\<close>: no other contract declares \<open>A\<close> as a base, and no
  contract declares \<open>B\<close> as a base.
\<close>

definition soleInheritor :: "InheritanceResolver \<Rightarrow> string \<Rightarrow> string \<Rightarrow> bool" where
  "soleInheritor this A B =
     list_all (\<lambda>(n, c). (A \<in> set (c_baseContracts c) \<longrightarrow> n = B) \<and> B \<notin> set (c_baseContracts c))
       (contractMap this)"

text \<open>
  A contract \<open>A\<close> with a base \<open>Z\<close> and a method \<open>m\<close>, a contract \<open>B\<close> derived from \<open>A\<close>
  without the method, and two contracts that have nothing to do with them.
\<close>

definition methodM :: FunctionInfo where
  "methodM = exFunction ''m'' ''{ x; }'' ''function m() { x; }''"

definition baseContract :: ContractInfo where
  "baseContract = exContract ''A'' KContract [''Z''] [methodM] []"

definition derivedContract :: ContractInfo where
  "derivedContract = exContract ''B'' KContract [''A''] [] []"

definition inheritWorkspace :: Workspace where
  "inheritWorkspace =
     [(''a.sol'', exFile ''a.sol''
        [exContract ''Z'' KContract [] [] [], baseContract, derivedContract,
         exContract ''E'' KContract [] [] [], exContract ''D'' KContract [''E''] [] []])]"

text \<open>
  Two contracts derived from a contract \<open>A\<close> with a method \<open>m\<close>; and a contract \<open>A\<close> with
  two functions \<open>m\<close>, the first one without a body, and a contract derived from it.
\<close>

definition twoDerivedWorkspace :: Workspace where
  "twoDerivedWorkspace =
     [(''a.sol'', exFile ''a.sol''
        [exContract ''A'' KContract [] [methodM] [], exContract ''B'' KContract [''A''] [] [],
         exContract ''C'' KContract [''A''] [] []])]"

definition overloadedContract :: ContractInfo where
  "overloadedContract =
     exContract ''A'' KAbstract [] [exFunction ''m'' [] ''function m(uint a);'', methodM] []"

definition overloadWorkspace :: Workspace where
  "overloadWorkspace =
     [(''a.sol'', exFile ''a.sol'' [overloadedContract, exContract ''B'' KContract [''A''] [] []])]"

text \<open>
  The visitor of a query whose callback never stops the walk and only updates the state,
  and the update that the callback of \<open>findAtPosition\<close> makes.
\<close>

definition collecting :: "string \<Rightarrow> (jv \<Rightarrow> 's \<Rightarrow> 's) \<Rightarrow> 's visitor" where
  "collecting T g = objectLiteral T (\<lambda>n parent s. Inr (Undefined, g n s))"

definition positionUpdate :: "int \<Rightarrow> int \<Rightarrow> jv \<Rightarrow> jv \<times> number \<Rightarrow> jv \<times> number" where
  "positionUpdate ln col n st =
     (case positionCallback ln col n Null st of Inr (v, st') \<Rightarrow> st' | Inl e \<Rightarrow> st)"

text \<open>
  The span of a node: whether its \<open>loc\<close> holds a position, the range the code computes for
  it, and its line span, its column span and its extent as integers.
\<close>

fun locOf :: "jv \<Rightarrow> SourceLocation option" where
  "locOf (Obj t l ps) = l"
| "locOf v = None"

definition enclosesPosition :: "int \<Rightarrow> int \<Rightarrow> jv \<Rightarrow> bool" where
  "enclosesPosition ln col n =
     (case locOf n of Some loc \<Rightarrow> containsPosition ln col loc | None \<Rightarrow> False)"

definition nodeRange :: "jv \<Rightarrow> number" where
  "nodeRange n = (case locOf n of Some loc \<Rightarrow> rangeOf loc | None \<Rightarrow> NaN)"

definition isCandidate :: "int \<Rightarrow> int \<Rightarrow> jv \<Rightarrow> bool" where
  "isCandidate ln col n = (enclosesPosition ln col n \<and> lessNumber (nodeRange n) PosInfinity)"

definition lineSpan :: "jv \<Rightarrow> int" where
  "lineSpan n = (case locOf n of Some loc \<Rightarrow> line (end loc) - line (start loc) | None \<Rightarrow> 0)"

definition columnSpan :: "jv \<Rightarrow> int" where
  "columnSpan n = (case locOf n of Some loc \<Rightarrow> column (end loc) - column (start loc) | None \<Rightarrow> 0)"

definition extent :: "jv \<Rightarrow> int" where
  "extent n = lineSpan n * 1000 + columnSpan n"

text \<open>The spans of a node are small when the extent is computed without rounding.\<close>

definition smallSpans :: "jv \<Rightarrow> bool" where
  "smallSpans n =
     (locOf n \<noteq> None \<and> abs (lineSpan n * 1000) < 2 ^ 53 \<and> abs (columnSpan n) < 2 ^ 53
      \<and> abs (extent n) < 2 ^ 53)"

text \<open>
  A tree with two function definitions whose spans overlap: one on a single long line, one
  on three short lines.
\<close>

definition mkLoc :: "int \<Rightarrow> int \<Rightarrow> int \<Rightarrow> int \<Rightarrow> SourceLocation" where
  "mkLoc l1 c1 l2 c2 = \<lparr>start = \<lparr>line = l1, column = c1\<rparr>, end = \<lparr>line = l2, column = c2\<rparr>\<rparr>"

definition fnNode :: "string \<Rightarrow> SourceLocation \<Rightarrow> jv" where
  "fnNode n loc =
     Obj (Some ''FunctionDefinition'') (Some loc)
       [(''name'', Str n), (''parameters'', Arr []),
        (''body'', Obj (Some ''Block'') None [(''statements'', Arr [])])]"

definition wideFn :: jv where
  "wideFn = fnNode ''wide'' (mkLoc 10 0 10 5000)"

definition tallFn :: jv where
  "tallFn = fnNode ''tall'' (mkLoc 9 0 11 1)"

definition spanTree :: jv where
  "spanTree =
     Obj (Some ''SourceUnit'') None
       [(''children'', Arr [Obj (Some ''ContractDefinition'') None
          [(''name'', Str ''C''), (''baseContracts'', Arr []),
           (''subNodes'', Arr [wideFn, tallFn])]])]"

text \<open>
  A block with one statement, and a visitor that logs the node types it is called for and
  answers the block with a given value.
\<close>

definition blockNode :: jv where
  "blockNode = Obj (Some ''Block'') None [(''statements'', Arr [Obj (Some ''Identifier'') None []])]"

definition logVisitor :: "jv \<Rightarrow> string list visitor" where
  "logVisitor answer =
     (\<lambda>k. if k = ''Block'' then Some (\<lambda>n parent seen. Inr (answer, seen @ [''Block'']))
          else if k = ''Identifier''
          then Some (\<lambda>n parent seen. Inr (Undefined, seen @ [''Identifier'']))
          else None)"
section \<open>Helper lemmas\<close>

lemma split_not_Nil: "split sep s \<noteq> []"
  by (induction s) (auto simp: Let_def)

lemma tl_split_append: "tl (split sep (xs @ sep # ys)) \<noteq> []"
  by (induction xs) (auto simp: Let_def split_not_Nil)

lemma last_split_append:
  "last (split sep (xs @ sep # ys)) = last (split sep ys)"
proof (induction xs)
  case Nil
  show ?case by (simp add: Let_def split_not_Nil)
next
  case (Cons x xs)
  let ?r = "split sep (xs @ sep # ys)"
  have ne: "?r \<noteq> []" by (rule split_not_Nil)
  have tl: "tl ?r \<noteq> []" by (rule tl_split_append)
  have "last (tl ?r) = last ?r" using ne tl by (cases ?r) auto
  with Cons ne tl show ?case by (simp add: Let_def)
qed

lemma localNameOf_qualified: "localNameOf (q @ CHR ''.'' # n) = localNameOf n"
  by (simp add: localNameOf_def last_split_append)

lemma split_plain: "sep \<notin> set n \<Longrightarrow> split sep n = [n]"
  by (induction n) (auto simp: Let_def)

lemma localNameOf_plain: "CHR ''.'' \<notin> set n \<Longrightarrow> localNameOf n = n"
  by (simp add: localNameOf_def split_plain)


lemma firstSome_find:
  "firstSome (\<lambda>x. find P (g x)) xs = find P (concat (map g xs))"
proof (induction xs)
  case Nil show ?case by simp
next
  case (Cons x xs)
  have app: "\<And>as bs. find P (as @ bs) = (case find P as of Some y \<Rightarrow> Some y | None \<Rightarrow> find P bs)"
    subgoal for as bs by (induction as) auto
    done
  show ?case using Cons by (simp add: app split: option.splits)
qed

lemma firstSome_None_iff: "firstSome f xs = None \<longleftrightarrow> (\<forall>x\<in>set xs. f x = None)"
  by (induction xs) (auto split: option.splits)

lemma hd_split_append: "sep \<notin> set xs \<Longrightarrow> hd (split sep (xs @ sep # ys)) = xs"
  by (induction xs) (auto simp: Let_def)

lemma length_split_append: "Suc 0 < length (split sep (xs @ sep # ys))"
  using tl_split_append[of sep xs ys] split_not_Nil[of sep "xs @ sep # ys"]
  by (cases "split sep (xs @ sep # ys)") (auto)

lemma qualifierOf_qualified:
  "CHR ''.'' \<notin> set q \<Longrightarrow> qualifierOf (q @ CHR ''.'' # n) = Some q"
  by (simp add: qualifierOf_def Let_def hd_split_append length_split_append)

lemma resolveSingleFunction_find:
  "resolveSingleFunction n ws = find (\<lambda>func. f_name func = localNameOf n) (allFunctions ws)"
proof -
  have "firstSome (\<lambda>(filePath, parsedFile). findInContracts l (contracts parsedFile)) ws
      = find (\<lambda>func. f_name func = l) (allFunctions ws)" for l
  proof (induction ws)
    case Nil show ?case by (simp add: allFunctions_def)
  next
    case (Cons a ws)
    have app: "\<And>as bs. find P (as @ bs) = (case find P as of Some y \<Rightarrow> Some y | None \<Rightarrow> find P bs)" for P :: "FunctionInfo \<Rightarrow> bool"
      subgoal for as bs by (induction as) auto
      done
    show ?case using Cons
      by (cases a) (simp add: allFunctions_def findInContracts_def firstSome_find app split: option.splits)
  qed
  then show ?thesis by (simp add: resolveSingleFunction_def Let_def)
qed

lemma set_setAdd: "set (setAdd x xs) = insert x (set xs)"
  by (auto simp: setAdd_def)

section \<open>C1: the call graph holds resolved calls only, and no self-edge\<close>

lemma minLen_call_patterns:
  "0 < minLen directCallPattern" "0 < minLen thisCallPattern" "0 < minLen internalCallPattern"
  by (simp_all add: directCallPattern_def thisCallPattern_def internalCallPattern_def
      lowerName_def spaces_def oneOrMore_def)

lemma scanLines_Some: "\<exists>r. scanLines n ls acc = Some r"
proof (induction ls arbitrary: n acc)
  case Nil
  show ?case by simp
next
  case (Cons l ls)
  obtain d t i where
    "execAll directCallPattern [] l = Some d"
    "execAll thisCallPattern [] l = Some t"
    "execAll internalCallPattern [] l = Some i"
    using execAll_Some minLen_call_patterns by meson
  then show ?case using Cons by simp
qed

lemma extractFunctionCalls_Some: "\<exists>calls. extractFunctionCalls F = Some calls"
  using scanLines_Some by (fastforce simp: extractFunctionCalls_def Let_def)

lemma resolveCalls_resolved:
  "c \<in> set (resolveCalls calls F cur ws) \<Longrightarrow>
     fc_resolvedFunction c \<noteq> None \<and> fc_name c \<noteq> f_name F"
  by (induction calls) (auto simp: Let_def resolveFunctionCall_def split: if_splits)

text \<open>
  C1. For every function \<open>F\<close> and every workspace, \<open>buildCallGraph\<close> returns a list, every
  entry of the list has a resolved function that is not null, and no entry has the name
  of \<open>F\<close>.
\<close>

theorem buildCallGraph_resolved_no_self:
  "\<exists>calls. buildCallGraph F cur ws = Some calls
     \<and> (\<forall>c \<in> set calls. fc_resolvedFunction c \<noteq> None \<and> fc_name c \<noteq> f_name F)"
proof -
  obtain cs where "extractFunctionCalls F = Some cs"
    using extractFunctionCalls_Some by blast
  then show ?thesis
    by (auto simp: buildCallGraph_def dest: resolveCalls_resolved)
qed

theorem buildCallGraph_resolved_no_self_witness:
  "buildCallGraph callerFunction callFile [(''a.sol'', callFile)] = Some [checkCall]
   \<and> fc_resolvedFunction checkCall \<noteq> None \<and> fc_name checkCall \<noteq> f_name callerFunction"
proof -
  have e: "buildCallGraph callerFunction callFile [(''a.sol'', callFile)] = Some [checkCall]"
    by code_simp
  from buildCallGraph_resolved_no_self[of callerFunction callFile "[(''a.sol'', callFile)]"] e
  show ?thesis by simp
qed

section \<open>C8: state-variable references are the identifiers that name a state variable\<close>

lemma fold_collect:
  "set (fold (\<lambda>match stateVarNames.
                      case g match of
                        Some identifier \<Rightarrow>
                          if identifier \<in> V
                          then setAdd identifier stateVarNames else stateVarNames
                      | None \<Rightarrow> stateVarNames) ms acc)
    = set acc \<union> (set (List.map_filter g ms) \<inter> V)"
  by (induction ms arbitrary: acc) (auto simp: set_setAdd List.map_filter_simps split: option.splits)

lemma isStart_isWord: "isStartChar c \<Longrightarrow> isWordChar c"
  by (auto simp: isStartChar_def isWordChar_def)

lemma inSet_identChars: "inSet identChars c = isWordChar c"
  by (auto simp: inSet_def identChars_def isWordChar_def)

lemma inSet_startChars:
  "inSet [Rng CHR ''a'' CHR ''z'', Rng CHR ''A'' CHR ''Z'', Ch CHR ''_''] c = isStartChar c"
  by (auto simp: inSet_def isStartChar_def)

lemma advance_0: "advance 0 st = st"
  by (simp add: advance_def)

lemma advance_advance: "advance k (advance j st) = advance (j + k) st"
  by (simp add: advance_def take_add add.commute)

lemma rev_upt_Suc: "rev [0..<Suc m] = map Suc (rev [0..<m]) @ [0]"
proof -
  have "[0..<Suc m] = 0 # map Suc [0..<m]"
    by (simp only: map_Suc_upt upt_conv_Cons[of 0 "Suc m"] zero_less_Suc)
  then show ?thesis by (simp only: rev.simps rev_map)
qed

lemma rxm_Star_In:
  "rxm (Star (In cs)) st
     = map (\<lambda>k. advance k st) (rev [0..<Suc (length (takeWhile (inSet cs) (remaining st)))])"
proof (induction "remaining st" arbitrary: st)
  case Nil
  then have "remaining st = []" by simp
  then show ?case by (simp add: rxm.simps(6)[of "In cs" st] rxm_atom_simps advance_0)
next
  case (Cons c xs)
  then have r: "remaining st = c # xs" by simp
  show ?case
  proof (cases "inSet cs c")
    case False
    with r show ?thesis by (simp add: rxm.simps(6)[of "In cs" st] rxm_atom_simps advance_0)
  next
    case True
    let ?n = "length (takeWhile (inSet cs) xs)"
    have "xs = remaining (advance 1 st)" using r by simp
    from Cons(1)[OF this] have ih: "rxm (Star (In cs)) (advance 1 st)
       = map (\<lambda>k. advance k (advance 1 st)) (rev [0..<Suc ?n])"
      using r by simp
    have "rxm (Star (In cs)) st = rxm (Star (In cs)) (advance 1 st) @ [st]"
      using r True by (simp add: rxm.simps(6)[of "In cs" st] rxm_atom_simps)
    also have "\<dots> = map (\<lambda>k. advance (Suc k) st) (rev [0..<Suc ?n]) @ [advance 0 st]"
      unfolding ih by (simp only: advance_advance advance_0 plus_1_eq_Suc)
    also have "\<dots> = map (\<lambda>k. advance k st) (map Suc (rev [0..<Suc ?n]) @ [0])"
      by (simp only: map_append map_map comp_def list.map)
    also have "\<dots> = map (\<lambda>k. advance k st) (rev [0..<Suc (Suc ?n)])"
      by (simp only: rev_upt_Suc[of "Suc ?n"])
    finally show ?thesis using r True by simp
  qed
qed

lemma rxm_WordB_filter:
  "concat (map (rxm WordB) L)
     = filter (\<lambda>s. isWordAt (consumed s) \<noteq> isWordAt (remaining s)) L"
  by (induction L) (simp_all add: rxm_atom_simps)

lemma isWordAt_Cons: "isWordAt (c # xs) = isWordChar c"
  by (simp add: isWordAt_def isWordChar_def)

lemma takeWhile_all_word: "k < length (takeWhile P xs) \<Longrightarrow> P (xs ! k)"
  by (metis nth_mem set_takeWhileD takeWhile_nth)

lemma drop_takeWhile_length: "drop (length (takeWhile P xs)) xs = dropWhile P xs"
  by (rule dropWhile_eq_drop[symmetric])

lemma take_takeWhile_length: "take (length (takeWhile P xs)) xs = takeWhile P xs"
  by (rule takeWhile_eq_take[symmetric])

lemma not_isWordAt_dropWhile: "\<not> isWordAt (dropWhile isWordChar xs)"
proof (cases "dropWhile isWordChar xs")
  case Nil
  show ?thesis unfolding isWordAt_def Nil by simp
next
  case (Cons d ds)
  then have "\<not> isWordChar d" by (metis hd_dropWhile list.sel(1) list.distinct(1))
  with Cons show ?thesis by (simp add: isWordAt_Cons)
qed

lemma identifier_states:
  assumes r: "remaining st = c # xs" and c: "isWordChar c"
    and g: "\<And>s. consumed (g s) = consumed s" "\<And>s. remaining (g s) = remaining s"
  defines "n \<equiv> length (takeWhile isWordChar xs)"
  shows "filter (\<lambda>s. isWordAt (consumed s) \<noteq> isWordAt (remaining s))
           (map (\<lambda>k. g (advance (Suc k) st)) (rev [0..<Suc n]))
         = [g (advance (Suc n) st)]"
proof -
  have len: "n \<le> length xs" unfolding n_def by (rule length_takeWhile_le)
  have cons: "isWordAt (consumed (advance (Suc k) st))" if "k \<le> n" for k
  proof -
    have "take (Suc k) (c # xs) = take k (c # xs) @ [(c # xs) ! k]"
      using that len by (intro take_Suc_conv_app_nth) simp
    moreover have "isWordChar ((c # xs) ! k)"
    proof (cases k)
      case 0 then show ?thesis using c by simp
    next
      case (Suc j)
      with that have "j < length (takeWhile isWordChar xs)" by (simp add: n_def)
      from takeWhile_all_word[OF this] Suc show ?thesis by simp
    qed
    ultimately show ?thesis using r by (simp add: isWordAt_Cons)
  qed
  have rem_lt: "isWordAt (remaining (advance (Suc k) st))" if "k < n" for k
  proof -
    from that have k: "k < length (takeWhile isWordChar xs)" by (simp add: n_def)
    with len have "k < length xs" by (simp add: n_def)
    then have "drop k xs = xs ! k # drop (Suc k) xs" by (rule Cons_nth_drop_Suc[symmetric])
    with takeWhile_all_word[OF k] r show ?thesis by (simp add: isWordAt_Cons)
  qed
  have rem_n: "\<not> isWordAt (remaining (advance (Suc n) st))"
    using r not_isWordAt_dropWhile[of xs] by (simp add: n_def drop_takeWhile_length)
  have tail: "filter (\<lambda>s. isWordAt (consumed s) \<noteq> isWordAt (remaining s))
           (map (\<lambda>k. g (advance (Suc k) st)) (rev [0..<n])) = []"
    using cons rem_lt by (auto simp: filter_empty_conv g)
  have "rev [0..<Suc n] = n # rev [0..<n]" by simp
  then show ?thesis using tail cons[of n] rem_n by (simp add: g)
qed

lemma identifierPattern_unfold:
  "identifierPattern =
     Seq WordB (Seq (Grp 1 (Seq (In [Rng CHR ''a'' CHR ''z'', Rng CHR ''A'' CHR ''Z'', Ch CHR ''_''])
                      (Star (In identChars)))) WordB)"
  by (simp add: identifierPattern_def)

lemma rxm_identifier_fail_empty:
  assumes "remaining st = []"
  shows "rxm identifierPattern st = []"
  using assms
  by (simp add: identifierPattern_unfold rxm.simps(4) rxm.simps(8) rxm_atom_simps)

lemma rxm_identifier_fail_start:
  assumes "remaining st = c # xs" "\<not> isStartChar c"
  shows "rxm identifierPattern st = []"
  using assms
  by (simp add: identifierPattern_unfold rxm.simps(4) rxm.simps(8) rxm_atom_simps
        inSet_startChars)

lemma rxm_identifier_fail_behind:
  assumes "remaining st = c # xs" "isStartChar c" "isWordAt (consumed st)"
  shows "rxm identifierPattern st = []"
  using assms isStart_isWord[of c]
  by (simp add: identifierPattern_unfold rxm.simps(4) rxm.simps(8) rxm_atom_simps
        isWordAt_Cons)

lemma rxm_identifier_match:
  assumes r: "remaining st = c # xs" and c: "isStartChar c" and b: "\<not> isWordAt (consumed st)"
  shows "rxm identifierPattern st = [identEnd st c xs]"
proof -
  define n where "n = length (takeWhile isWordChar xs)"
  define g where "g = (\<lambda>s::mstate. s\<lparr>caps :=
              (1::nat, rev (take (length (consumed s) - length (consumed st)) (consumed s)))
              # caps s\<rparr>)"
  have w: "isWordChar c" using c by (rule isStart_isWord)
  have len: "n \<le> length xs" unfolding n_def by (rule length_takeWhile_le)
  have 1: "rxm WordB st = [st]"
    using r b w by (simp add: rxm_atom_simps isWordAt_Cons)
  have 2: "rxm (In [Rng CHR ''a'' CHR ''z'', Rng CHR ''A'' CHR ''Z'', Ch CHR ''_'']) st
             = [advance 1 st]"
    using r c by (simp add: rxm_atom_simps inSet_startChars)
  have 3: "rxm (Star (In identChars)) (advance 1 st)
             = map (\<lambda>k. advance (Suc k) st) (rev [0..<Suc n])"
    unfolding rxm_Star_In[of identChars "advance 1 st"]
    using r by (simp add: advance_advance n_def inSet_identChars[abs_def])
  have 4: "rxm (Grp 1 (Seq (In [Rng CHR ''a'' CHR ''z'', Rng CHR ''A'' CHR ''Z'', Ch CHR ''_''])
                      (Star (In identChars)))) st
             = map (\<lambda>k. g (advance (Suc k) st)) (rev [0..<Suc n])"
    unfolding rxm.simps(8) rxm.simps(4) 2 by (simp only: list.map concat.simps append_Nil2 3 map_map comp_def g_def)
  have 5: "rxm identifierPattern st = [g (advance (Suc n) st)]"
    unfolding identifierPattern_unfold rxm.simps(4)[of WordB] 1
    apply (simp only: list.map concat.simps append_Nil2)
    unfolding rxm.simps(4) 4 rxm_WordB_filter
    unfolding n_def
    by (rule identifier_states[OF r w]) (simp_all add: g_def)
  have "g (advance (Suc n) st) = identEnd st c xs"
    using r len
    by (cases st) (simp add: g_def identEnd_def advance_def n_def take_takeWhile_length
        drop_takeWhile_length)
  with 5 show ?thesis by simp
qed

lemma rxSearch_identifier_Nil: "rxSearch identifierPattern bef [] = None"
  by (simp add: rxm_identifier_fail_empty Let_def)

lemma rxSearch_identifier_Cons:
  "rxSearch identifierPattern bef (c # xs) =
     (if isStartChar c \<and> \<not> isWordAt bef
      then Some (\<lparr>consumed = bef, remaining = c # xs, caps = []\<rparr>,
                 identEnd \<lparr>consumed = bef, remaining = c # xs, caps = []\<rparr> c xs)
      else rxSearch identifierPattern (c # bef) xs)"
proof -
  let ?st = "\<lparr>consumed = bef, remaining = c # xs, caps = []\<rparr>"
  show ?thesis
  proof (cases "isStartChar c \<and> \<not> isWordAt bef")
    case True
    then have "rxm identifierPattern ?st = [identEnd ?st c xs]"
      by (intro rxm_identifier_match) simp_all
    with True show ?thesis by (simp add: Let_def)
  next
    case False
    then have "rxm identifierPattern ?st = []"
      using rxm_identifier_fail_start[of ?st c xs] rxm_identifier_fail_behind[of ?st c xs]
      by (cases "isStartChar c") simp_all
    with False show ?thesis by (auto simp: Let_def)
  qed
qed

lemma execAll_identifier:
  "\<exists>ms. execAll identifierPattern bef aft = Some ms
     \<and> List.map_filter (\<lambda>m. matchGroup m 1) ms = scanIdentifiers bef aft"
proof (induction bef aft rule: scanIdentifiers.induct)
  case (1 bef)
  show ?case
    by (subst execAll.simps)
      (simp del: rxSearch.simps add: rxSearch_identifier_Nil List.map_filter_simps)
next
  case (2 bef c xs)
  show ?case
  proof (cases "isStartChar c \<and> \<not> isWordAt bef")
    case True
    let ?st = "\<lparr>consumed = bef, remaining = c # xs, caps = []\<rparr>"
    from 2(1)[OF True] obtain ms where
      ms: "execAll identifierPattern (rev (c # takeWhile isWordChar xs) @ bef)
             (dropWhile isWordChar xs) = Some ms"
          "List.map_filter (\<lambda>m. matchGroup m 1) ms
             = scanIdentifiers (rev (c # takeWhile isWordChar xs) @ bef) (dropWhile isWordChar xs)"
      by blast
    have s: "rxSearch identifierPattern bef (c # xs) = Some (?st, identEnd ?st c xs)"
      using True by (simp del: rxSearch.simps add: rxSearch_identifier_Cons)
    have lt: "length (dropWhile isWordChar xs) < length (c # xs)"
      using length_dropWhile_le[of isWordChar xs] by simp
    have "execAll identifierPattern bef (c # xs) = Some ((?st, identEnd ?st c xs) # ms)"
      apply (subst execAll.simps)
      using lt ms(1) by (simp del: rxSearch.simps add: s identEnd_def)
    moreover have "matchGroup (?st, identEnd ?st c xs) 1 = Some (c # takeWhile isWordChar xs)"
      by (simp add: matchGroup_def identEnd_def)
    ultimately show ?thesis using True ms(2) by (simp add: List.map_filter_simps)
  next
    case False
    from 2(2)[OF False] obtain ms where
      ms: "execAll identifierPattern (c # bef) xs = Some ms"
          "List.map_filter (\<lambda>m. matchGroup m 1) ms = scanIdentifiers (c # bef) xs"
      by blast
    have s: "rxSearch identifierPattern bef (c # xs) = rxSearch identifierPattern (c # bef) xs"
      using False by (auto simp del: rxSearch.simps simp add: rxSearch_identifier_Cons)
    have "execAll identifierPattern bef (c # xs) = execAll identifierPattern (c # bef) xs"
    proof (cases "rxSearch identifierPattern (c # bef) xs")
      case None
      then show ?thesis
        by (subst execAll.simps, subst (2) execAll.simps) (simp del: rxSearch.simps add: s)
    next
      case (Some m)
      have "0 < minLen identifierPattern" by (simp add: identifierPattern_def)
      with rxSearch_progress[OF Some] have "length (remaining (snd m)) < length xs" by linarith
      with Some show ?thesis
        by (subst execAll.simps, subst (2) execAll.simps) (simp del: rxSearch.simps add: s)
    qed
    with ms False show ?thesis by auto
  qed
qed

lemma isWordAt_rev_append:
  "pre \<noteq> [] \<Longrightarrow> isWordAt (rev pre @ bef) = isWordChar (last pre)"
  by (cases pre rule: rev_cases) (simp_all add: isWordAt_Cons)

lemma takeWhile_word_run:
  assumes "list_all isWordChar w" and "\<not> isWordAt post"
  shows "takeWhile isWordChar (w @ post) = w" and "dropWhile isWordChar (w @ post) = post"
proof -
  have p: "takeWhile isWordChar post = []" "dropWhile isWordChar post = post"
    using assms(2) by (cases post; simp add: isWordAt_Cons)+
  from assms(1) have a: "\<And>x. x \<in> set w \<Longrightarrow> isWordChar x" by (simp add: list_all_iff)
  show "takeWhile isWordChar (w @ post) = w" using a p by (simp add: takeWhile_append2)
  show "dropWhile isWordChar (w @ post) = post" using a p by (simp add: dropWhile_append2)
qed

lemma occursIn_Nil: "\<not> occursIn bef [] w"
  by (simp add: occursIn_def)

lemma occursIn_skip:
  assumes "\<not> (isStartChar c \<and> \<not> isWordAt bef)"
  shows "occursIn bef (c # xs) w = occursIn (c # bef) xs w"
proof
  assume "occursIn bef (c # xs) w"
  then obtain pre post where o: "c # xs = pre @ w @ post" "w \<noteq> []" "isStartChar (hd w)"
    "list_all isWordChar w" "\<not> isWordAt (rev pre @ bef)" "\<not> isWordAt post"
    unfolding occursIn_def by blast
  show "occursIn (c # bef) xs w"
  proof (cases pre)
    case Nil
    with o(1,2) have "hd w = c" by (cases w) simp_all
    with o(3,5) Nil assms show ?thesis by simp
  next
    case (Cons d pre')
    with o(1) have "d = c" "xs = pre' @ w @ post" by simp_all
    with o(2-6) Cons show ?thesis unfolding occursIn_def by auto
  qed
next
  assume "occursIn (c # bef) xs w"
  then obtain pre post where o: "xs = pre @ w @ post" "w \<noteq> []" "isStartChar (hd w)"
    "list_all isWordChar w" "\<not> isWordAt (rev pre @ c # bef)" "\<not> isWordAt post"
    unfolding occursIn_def by blast
  then have "c # xs = (c # pre) @ w @ post" "\<not> isWordAt (rev (c # pre) @ bef)" by simp_all
  with o(2,3,4,6) show "occursIn bef (c # xs) w" unfolding occursIn_def by blast
qed

lemma occursIn_match:
  assumes c: "isStartChar c" and b: "\<not> isWordAt bef"
  shows "occursIn bef (c # xs) w
           = (w = c # takeWhile isWordChar xs
              \<or> occursIn (rev (c # takeWhile isWordChar xs) @ bef) (dropWhile isWordChar xs) w)"
proof -
  let ?t = "takeWhile isWordChar xs" and ?d = "dropWhile isWordChar xs"
  have xs: "xs = ?t @ ?d" by simp
  have wc: "isWordChar c" using c by (rule isStart_isWord)
  have allt: "list_all isWordChar (c # ?t)"
    using wc by (auto simp: list_all_iff dest: set_takeWhileD)
  show ?thesis
  proof
    assume "occursIn bef (c # xs) w"
    then obtain pre post where o: "c # xs = pre @ w @ post" "w \<noteq> []" "isStartChar (hd w)"
      "list_all isWordChar w" "\<not> isWordAt (rev pre @ bef)" "\<not> isWordAt post"
      unfolding occursIn_def by blast
    show "w = c # ?t \<or> occursIn (rev (c # ?t) @ bef) ?d w"
    proof (cases pre)
      case Nil
      with o(1,2) obtain w' where w: "w = c # w'" "xs = w' @ post" by (cases w) simp_all
      from o(4) w have "list_all isWordChar w'" by simp
      from takeWhile_word_run(1)[OF this o(6)] w show ?thesis by simp
    next
      case (Cons p ps)
      have "(c # ?t) @ ?d = pre @ (w @ post)" using o(1) by simp
      then obtain us where
        "(c # ?t = pre @ us \<and> us @ ?d = w @ post) \<or> ((c # ?t) @ us = pre \<and> ?d = us @ w @ post)"
        unfolding append_eq_append_conv2 by blast
      then show ?thesis
      proof
        assume a: "c # ?t = pre @ us \<and> us @ ?d = w @ post"
        have "last pre \<in> set pre" using Cons by simp
        with a have "last pre \<in> set (c # ?t)" by (metis Un_iff set_append)
        with allt have "isWordChar (last pre)" unfolding list_all_iff by blast
        with o(5) Cons show ?thesis using isWordAt_rev_append[of pre bef] by simp
      next
        assume a: "(c # ?t) @ us = pre \<and> ?d = us @ w @ post"
        then have "rev pre @ bef = rev us @ rev (c # ?t) @ bef" by auto
        with o(2-6) a have "occursIn (rev (c # ?t) @ bef) ?d w"
          unfolding occursIn_def by metis
        then show ?thesis ..
      qed
    qed
  next
    assume "w = c # ?t \<or> occursIn (rev (c # ?t) @ bef) ?d w"
    then show "occursIn bef (c # xs) w"
    proof
      assume w: "w = c # ?t"
      have "c # xs = [] @ w @ ?d" using w by simp
      moreover have "\<not> isWordAt (rev [] @ bef)" using b by simp
      moreover have "\<not> isWordAt ?d" by (rule not_isWordAt_dropWhile)
      moreover have "w \<noteq> []" "isStartChar (hd w)" "list_all isWordChar w"
        using w c allt by simp_all
      ultimately show ?thesis unfolding occursIn_def by blast
    next
      assume "occursIn (rev (c # ?t) @ bef) ?d w"
      then obtain pre post where o: "?d = pre @ w @ post" "w \<noteq> []" "isStartChar (hd w)"
        "list_all isWordChar w" "\<not> isWordAt (rev pre @ rev (c # ?t) @ bef)" "\<not> isWordAt post"
        unfolding occursIn_def by blast
      have "c # xs = ((c # ?t) @ pre) @ w @ post" using o(1) xs by (metis append_Cons append_assoc)
      moreover have "\<not> isWordAt (rev ((c # ?t) @ pre) @ bef)" using o(5) by simp
      ultimately show ?thesis using o(2,3,4,6) unfolding occursIn_def by blast
    qed
  qed
qed

lemma set_scanIdentifiers: "set (scanIdentifiers bef aft) = {w. occursIn bef aft w}"
proof (induction bef aft rule: scanIdentifiers.induct)
  case (1 bef)
  show ?case by (simp add: occursIn_Nil)
next
  case (2 bef c xs)
  show ?case
  proof (cases "isStartChar c \<and> \<not> isWordAt bef")
    case True
    from 2(1)[OF True] True occursIn_match[of c bef xs] show ?thesis by auto
  next
    case False
    from 2(2)[OF False] occursIn_skip[OF False, of xs] False show ?thesis by auto
  qed
qed

lemma isIdentifierOccurrence_occursIn: "isIdentifierOccurrence source w = occursIn [] source w"
  by (simp add: isIdentifierOccurrence_def occursIn_def)

lemma set_identifiersIn: "set (identifiersIn source) = {w. isIdentifierOccurrence source w}"
  by (simp add: identifiersIn_def set_scanIdentifiers isIdentifierOccurrence_occursIn)

text \<open>
  C8. For every function \<open>F\<close> and contract \<open>C\<close>, \<open>extractStateVariableReferences\<close> returns
  a set, and the set is the intersection of the identifier occurrences of the full source
  of \<open>F\<close> with the names of the state variables of \<open>C\<close>: every identifier of the source
  that is such a name is in it, whatever it denotes there, and nothing else is. An
  identifier occurrence is a maximal run of word characters that starts with a letter or
  \<open>_\<close>.
\<close>

theorem extractStateVariableReferences_intersection:
  "\<exists>refs. extractStateVariableReferences F C = Some refs
     \<and> set refs = {w. isIdentifierOccurrence (f_fullSource F) w}
                    \<inter> set (map v_name (c_stateVariables C))"
proof -
  obtain ms where ms: "execAll identifierPattern [] (f_fullSource F) = Some ms"
    and ids: "List.map_filter (\<lambda>m. matchGroup m 1) ms = identifiersIn (f_fullSource F)"
    using execAll_identifier[of "[]" "f_fullSource F"] unfolding identifiersIn_def by blast
  have "set (List.map_filter (\<lambda>m. matchGroup m 1) ms)
          = {w. isIdentifierOccurrence (f_fullSource F) w}"
    unfolding ids by (rule set_identifiersIn)
  then show ?thesis
    by (simp add: extractStateVariableReferences_def Let_def ms fold_collect)
qed

text \<open>
  In \<open>total += owner1\<close> the state variable \<open>total\<close> is referenced and \<open>owner\<close> is not:
  \<open>owner1\<close> is another identifier.
\<close>

theorem extractStateVariableReferences_intersection_witness:
  "extractStateVariableReferences addFunction addContract = Some [''total'']
   \<and> isIdentifierOccurrence (f_fullSource addFunction) ''total''
   \<and> \<not> isIdentifierOccurrence (f_fullSource addFunction) ''owner''"
proof -
  let ?occ = "{w. isIdentifierOccurrence (f_fullSource addFunction) w}"
  have e: "extractStateVariableReferences addFunction addContract = Some [''total'']"
    by code_simp
  have n: "set (map v_name (c_stateVariables addContract)) = {''total'', ''owner''}"
    by (simp add: addContract_def exContract_def exStateVariable_def)
  from extractStateVariableReferences_intersection[of addFunction addContract]
  obtain refs where r: "extractStateVariableReferences addFunction addContract = Some refs"
    "set refs = ?occ \<inter> set (map v_name (c_stateVariables addContract))"
    by blast
  from r(1) e have "refs = [''total'']" by (simp only: option.inject)
  with r(2) have eq: "?occ \<inter> {''total'', ''owner''} = {''total''}"
    by (simp only: n list.set)
  then have "''total'' \<in> ?occ \<inter> {''total'', ''owner''}" by blast
  then have t: "isIdentifierOccurrence (f_fullSource addFunction) ''total''" by blast
  have o: "\<not> isIdentifierOccurrence (f_fullSource addFunction) ''owner''"
  proof
    assume "isIdentifierOccurrence (f_fullSource addFunction) ''owner''"
    then have "''owner'' \<in> ?occ \<inter> {''total'', ''owner''}" by blast
    then have "''owner'' \<in> {''total''}" by (simp only: eq)
    then have "''owner'' = ''total''" by (rule singletonD)
    then show False by simp
  qed
  from e t o show ?thesis by (intro conjI)
qed
section \<open>C3: the enclosing function of a position\<close>

lemma forSteps_sim:
  "(\<And>c acc. Visit c \<in> set steps \<Longrightarrow> F c (h acc) = onResult h (G c acc)) \<Longrightarrow>
     forSteps steps F (h acc) = onResult h (forSteps steps G acc)"
proof (induction steps arbitrary: acc)
  case Nil
  show ?case by (simp add: onResult_def)
next
  case (Cons x xs)
  show ?case
  proof (cases x)
    case Throw
    then show ?thesis by (simp add: onResult_def)
  next
    case (Visit c)
    have c: "F c (h acc) = onResult h (G c acc)" using Cons.prems Visit by simp
    have r: "forSteps xs F (h a) = onResult h (forSteps xs G a)" for a
      by (rule Cons.IH) (simp add: Cons.prems)
    show ?thesis unfolding Visit by (cases "G c acc") (simp_all add: c r onResult_def)
  qed
qed

text \<open>
  Two walks with visitors of the same key whose callbacks never stop the walk make the same
  steps: the members of the prototype do not read the state.
\<close>

lemma traverse_collecting:
  "traverse node (collecting T f) p (fold f acc s0)
     = onResult (\<lambda>ns. fold f ns s0) (traverse node (collecting T (\<lambda>n ns. ns @ [n])) p' acc)"
proof (induction node arbitrary: p p' acc rule: measure_induct_rule[where f = size])
  case (less node)
  let ?h = "\<lambda>ns. fold f ns s0"
  have kids: "forSteps (childSteps node) (\<lambda>child. traverse child (collecting T f) node) (?h a)
      = onResult ?h (forSteps (childSteps node)
          (\<lambda>child. traverse child (collecting T (\<lambda>n ns. ns @ [n])) node) a)" for a
    by (rule forSteps_sim) (rule less, rule size_childSteps)
  have own: "collecting T g T = Some (\<lambda>n parent s. Inr (Undefined, g n s))"
    for g :: "jv \<Rightarrow> 'c \<Rightarrow> 'c"
    by (simp add: collecting_def objectLiteral_def)
  have inherited: "collecting T g k
      = (case prototypeMember k of
           Some member \<Rightarrow>
             Some (\<lambda>node parent st. case member node of Inl e \<Rightarrow> Inl e | Inr v \<Rightarrow> Inr (v, st))
         | None \<Rightarrow> None)" if "k \<noteq> T" for k and g :: "jv \<Rightarrow> 'c \<Rightarrow> 'c"
    using that by (simp add: collecting_def objectLiteral_def)
  show ?case
  proof (cases "node = Null \<or> node = Undefined")
    case True
    then show ?thesis by (auto simp: traverse.simps[of node] onResult_def)
  next
    case False
    show ?thesis
    proof (cases "typeKey node = T")
      case True
      have "fold f (acc @ [node]) s0 = f node (fold f acc s0)" by simp
      with kids[of "acc @ [node]"] False True show ?thesis
        by (simp add: traverse.simps[of node] own)
    next
      case nk: False
      show ?thesis
      proof (cases "prototypeMember (typeKey node)")
        case None
        with kids[of acc] False nk show ?thesis
          by (simp add: traverse.simps[of node] inherited)
      next
        case (Some member)
        show ?thesis
        proof (cases "member node")
          case (Inl e)
          with Some False nk show ?thesis
            by (simp add: traverse.simps[of node] inherited onResult_def)
        next
          case (Inr v)
          with Some kids[of acc] False nk show ?thesis
            by (simp add: traverse.simps[of node] inherited onResult_def)
        qed
      qed
    qed
  qed
qed

lemma positionVisitor:
  "objectLiteral ''FunctionDefinition'' (positionCallback ln col)
     = collecting ''FunctionDefinition'' (positionUpdate ln col)"
proof -
  have "positionCallback ln col = (\<lambda>n parent s. Inr (Undefined, positionUpdate ln col n s))"
    by (simp add: positionUpdate_def positionCallback_def fun_eq_iff)
  then show ?thesis by (simp add: collecting_def)
qed

lemma findAtPosition_findAll:
  "findAtPosition root ln col
     = onResult (\<lambda>fns. fst (fold (positionUpdate ln col) fns (Null, PosInfinity)))
         (findAll root ''FunctionDefinition'')"
proof -
  have "findAll root ''FunctionDefinition''
      = traverse root (collecting ''FunctionDefinition'' (\<lambda>n ns. ns @ [n])) Null []"
    by (simp add: findAll_def collecting_def)
  moreover have "traverse root (collecting ''FunctionDefinition'' (positionUpdate ln col)) Null
        (Null, PosInfinity)
      = onResult (\<lambda>ns. fold (positionUpdate ln col) ns (Null, PosInfinity))
          (traverse root (collecting ''FunctionDefinition'' (\<lambda>n ns. ns @ [n])) Null [])"
    using traverse_collecting[of root "''FunctionDefinition''" "positionUpdate ln col" Null "[]"
        "(Null, PosInfinity)" Null]
    by simp
  ultimately show ?thesis
    by (simp add: findAtPosition_def positionVisitor onResult_def split: sum.splits)
qed

text \<open>The order \<open><\<close> of the numbers.\<close>

lemma lessNumber_never: "\<not> lessNumber r PosInfinity \<Longrightarrow> \<not> lessNumber r y"
  by (cases r; cases y) simp_all

lemma lessNumber_trans: "lessNumber a b \<Longrightarrow> lessNumber b c \<Longrightarrow> lessNumber a c"
  by (cases a; cases b; cases c) simp_all

lemma lessNumber_below:
  "lessNumber a b \<Longrightarrow> \<not> lessNumber c b \<Longrightarrow> lessNumber c PosInfinity \<Longrightarrow> lessNumber a c"
  by (cases a; cases b; cases c) simp_all

lemma positionUpdate_enclosing:
  "enclosesPosition ln col n \<Longrightarrow>
     positionUpdate ln col n st
       = (if lessNumber (nodeRange n) (snd st) then (n, nodeRange n) else st)"
  by (cases n) (auto simp: positionUpdate_def positionCallback_def enclosesPosition_def
      nodeRange_def Let_def split: option.splits)

lemma positionUpdate_skip:
  "\<not> isCandidate ln col n \<Longrightarrow> positionUpdate ln col n st = st"
proof (cases "enclosesPosition ln col n")
  case True
  assume "\<not> isCandidate ln col n"
  with True have "\<not> lessNumber (nodeRange n) PosInfinity" by (simp add: isCandidate_def)
  then have "\<not> lessNumber (nodeRange n) (snd st)" by (rule lessNumber_never)
  with True show ?thesis by (simp add: positionUpdate_enclosing)
next
  case False
  then show ?thesis
    by (cases n) (auto simp: positionUpdate_def positionCallback_def enclosesPosition_def
        split: option.splits)
qed

lemma positionUpdate_take:
  "isCandidate ln col n \<Longrightarrow>
     positionUpdate ln col n st
       = (if lessNumber (nodeRange n) (snd st) then (n, nodeRange n) else st)"
  by (simp add: isCandidate_def positionUpdate_enclosing)

lemma fold_positionUpdate_filter:
  "fold (positionUpdate ln col) fns st
     = fold (positionUpdate ln col) (filter (isCandidate ln col) fns) st"
  by (induction fns arbitrary: st) (simp_all add: positionUpdate_skip)

lemma fold_positionUpdate_smallest:
  assumes "\<forall>n \<in> set cands. isCandidate ln col n"
  shows "(cands = [] \<and> fold (positionUpdate ln col) cands (Null, PosInfinity) = (Null, PosInfinity))
       \<or> (\<exists>pre n post. cands = pre @ n # post
             \<and> fold (positionUpdate ln col) cands (Null, PosInfinity) = (n, nodeRange n)
             \<and> (\<forall>m \<in> set pre. lessNumber (nodeRange n) (nodeRange m))
             \<and> (\<forall>m \<in> set post. \<not> lessNumber (nodeRange m) (nodeRange n)))"
  using assms
proof (induction cands rule: rev_induct)
  case Nil
  show ?case by simp
next
  case (snoc x xs)
  from snoc.prems have x: "isCandidate ln col x" and xs: "\<forall>n \<in> set xs. isCandidate ln col n"
    by simp_all
  from x have xr: "lessNumber (nodeRange x) PosInfinity" by (simp add: isCandidate_def)
  from snoc.IH[OF xs] show ?case
  proof
    assume "xs = [] \<and> fold (positionUpdate ln col) xs (Null, PosInfinity) = (Null, PosInfinity)"
    then have "xs @ [x] = [] @ x # []"
      "fold (positionUpdate ln col) (xs @ [x]) (Null, PosInfinity) = (x, nodeRange x)"
      using x xr by (simp_all add: positionUpdate_take)
    then show ?thesis by (intro disjI2 exI[of _ "[]"] exI[of _ x]) simp
  next
    assume "\<exists>pre n post. xs = pre @ n # post
             \<and> fold (positionUpdate ln col) xs (Null, PosInfinity) = (n, nodeRange n)
             \<and> (\<forall>m \<in> set pre. lessNumber (nodeRange n) (nodeRange m))
             \<and> (\<forall>m \<in> set post. \<not> lessNumber (nodeRange m) (nodeRange n))"
    then obtain pre n post where p: "xs = pre @ n # post"
      "fold (positionUpdate ln col) xs (Null, PosInfinity) = (n, nodeRange n)"
      "\<forall>m \<in> set pre. lessNumber (nodeRange n) (nodeRange m)"
      "\<forall>m \<in> set post. \<not> lessNumber (nodeRange m) (nodeRange n)"
      by blast
    show ?thesis
    proof (cases "lessNumber (nodeRange x) (nodeRange n)")
      case True
      then have "fold (positionUpdate ln col) (xs @ [x]) (Null, PosInfinity) = (x, nodeRange x)"
        using x p(2) by (simp add: positionUpdate_take)
      moreover have "lessNumber (nodeRange x) (nodeRange m)" if m: "m \<in> set xs" for m
      proof -
        from m p(1) consider "m \<in> set pre" | "m = n" | "m \<in> set post" by auto
        then show ?thesis
        proof cases
          case 1
          with p(3) have "lessNumber (nodeRange n) (nodeRange m)" by simp
          with True show ?thesis by (rule lessNumber_trans)
        next
          case 2
          with True show ?thesis by simp
        next
          case 3
          with p(4) have a: "\<not> lessNumber (nodeRange m) (nodeRange n)" by simp
          from xs m have b: "lessNumber (nodeRange m) PosInfinity"
            by (simp add: isCandidate_def)
          from True a b show ?thesis by (rule lessNumber_below)
        qed
      qed
      ultimately show ?thesis
        by (intro disjI2 exI[of _ xs] exI[of _ x] exI[of _ "[]"]) simp
    next
      case False
      then have "fold (positionUpdate ln col) (xs @ [x]) (Null, PosInfinity) = (n, nodeRange n)"
        using x p(2) by (simp add: positionUpdate_take)
      moreover have "\<forall>m \<in> set (post @ [x]). \<not> lessNumber (nodeRange m) (nodeRange n)"
        using False p(4) by auto
      ultimately show ?thesis
        using p(1,3) by (intro disjI2 exI[of _ pre] exI[of _ n] exI[of _ "post @ [x]"]) simp
    qed
  qed
qed

text \<open>The range of a node with small spans is its extent.\<close>

lemma roundDouble_small: "abs x < 2 ^ 53 \<Longrightarrow> roundDouble x = Finite x"
  by (simp add: roundDouble_def)

lemma nodeRange_small:
  assumes "smallSpans a"
  shows "nodeRange a = Finite (extent a)"
proof -
  from assms obtain loc where loc: "locOf a = Some loc" by (auto simp: smallSpans_def)
  let ?l = "line (end loc) - line (start loc)" and ?c = "column (end loc) - column (start loc)"
  from assms loc have b: "abs (?l * 1000) < 2 ^ 53" "abs ?c < 2 ^ 53" "abs (?l * 1000 + ?c) < 2 ^ 53"
    by (simp_all add: smallSpans_def lineSpan_def columnSpan_def extent_def)
  have "abs ?l \<le> abs (?l * 1000)" by (simp add: abs_mult)
  with b(1) have l: "abs ?l < 2 ^ 53" by linarith
  have "rangeOf loc = Finite (?l * 1000 + ?c)"
    unfolding rangeOf_def
    by (simp only: roundDouble_small[OF l] roundDouble_small[OF b(1)] roundDouble_small[OF b(2)]
        roundDouble_small[OF b(3)] times1000.simps plusNumber.simps)
  with loc show ?thesis
    by (simp add: nodeRange_def extent_def lineSpan_def columnSpan_def)
qed

text \<open>
  C3 as the code has it. \<open>findAtPosition\<close> throws when the walk throws. Otherwise, of the
  function definitions the walk visits whose \<open>loc\<close> holds the position and whose range is
  below \<open>Infinity\<close>, it returns the first one (in the order of the walk) with the least
  range, or null when there is none. The range is the number the code computes, in
  doubles; for a node with small spans it is the extent, 1000 times the line span plus the
  column span, and then a smaller line span gives a smaller range when the column span is
  larger by less than 1000.
\<close>

theorem findAtPosition_smallest_range:
  "(findAll root ''FunctionDefinition'' = Inl e \<longrightarrow> findAtPosition root ln col = Inl e)
   \<and> (findAll root ''FunctionDefinition'' = Inr fns \<longrightarrow>
        (filter (isCandidate ln col) fns = [] \<and> findAtPosition root ln col = Inr Null)
        \<or> (\<exists>pre n post. filter (isCandidate ln col) fns = pre @ n # post
              \<and> findAtPosition root ln col = Inr n
              \<and> (\<forall>m \<in> set pre. lessNumber (nodeRange n) (nodeRange m))
              \<and> (\<forall>m \<in> set post. \<not> lessNumber (nodeRange m) (nodeRange n))))
   \<and> (smallSpans a \<longrightarrow> nodeRange a = Finite (extent a))
   \<and> (smallSpans a \<and> smallSpans b \<and> lineSpan a < lineSpan b
        \<and> columnSpan a - columnSpan b < 1000 \<longrightarrow> lessNumber (nodeRange a) (nodeRange b))"
proof -
  have 1: "findAtPosition root ln col = Inl e" if "findAll root ''FunctionDefinition'' = Inl e"
    using that by (simp add: findAtPosition_findAll onResult_def)
  have 2: "(filter (isCandidate ln col) fns = [] \<and> findAtPosition root ln col = Inr Null)
        \<or> (\<exists>pre n post. filter (isCandidate ln col) fns = pre @ n # post
              \<and> findAtPosition root ln col = Inr n
              \<and> (\<forall>m \<in> set pre. lessNumber (nodeRange n) (nodeRange m))
              \<and> (\<forall>m \<in> set post. \<not> lessNumber (nodeRange m) (nodeRange n)))"
    if f: "findAll root ''FunctionDefinition'' = Inr fns"
  proof -
    let ?c = "filter (isCandidate ln col) fns"
    have r: "findAtPosition root ln col
               = Inr (fst (fold (positionUpdate ln col) ?c (Null, PosInfinity)))"
      using f fold_positionUpdate_filter[of ln col fns "(Null, PosInfinity)"]
      by (simp add: findAtPosition_findAll onResult_def)
    have "\<forall>n \<in> set ?c. isCandidate ln col n" by simp
    from fold_positionUpdate_smallest[OF this] show ?thesis
      unfolding r by fastforce
  qed
  have 3: "nodeRange a = Finite (extent a)" if "smallSpans a"
    using that by (rule nodeRange_small)
  have 4: "lessNumber (nodeRange a) (nodeRange b)"
    if "smallSpans a" "smallSpans b" "lineSpan a < lineSpan b" "columnSpan a - columnSpan b < 1000"
  proof -
    from that(3,4) have "extent a < extent b" unfolding extent_def by linarith
    with that(1,2) show ?thesis by (simp add: nodeRange_small)
  qed
  from 1 2 3 4 show ?thesis by blast
qed

text \<open>
  C3 as stated fails: both functions of the example hold the position (10, 100), the first
  has the smaller line span, and the second is returned, its range being 2001 against 5000.
\<close>

theorem findAtPosition_not_lexicographic:
  "findAll spanTree ''FunctionDefinition'' = Inr [wideFn, tallFn]
   \<and> enclosesPosition 10 100 wideFn \<and> enclosesPosition 10 100 tallFn
   \<and> lineSpan wideFn < lineSpan tallFn
   \<and> findAtPosition spanTree 10 100 = Inr tallFn"
  by code_simp

theorem findAtPosition_smallest_range_witness:
  "findAll spanTree ''FunctionDefinition'' = Inr [wideFn, tallFn]
   \<and> filter (isCandidate 10 100) [wideFn, tallFn] = [wideFn] @ tallFn # []
   \<and> findAtPosition spanTree 10 100 = Inr tallFn
   \<and> nodeRange tallFn = Finite 2001 \<and> nodeRange wideFn = Finite 5000"
proof -
  have f: "findAll spanTree ''FunctionDefinition'' = Inr [wideFn, tallFn]" by code_simp
  have c: "filter (isCandidate 10 100) [wideFn, tallFn] = [wideFn, tallFn]" by code_simp
  have s: "smallSpans wideFn" "smallSpans tallFn" by code_simp+
  have x: "extent wideFn = 5000" "extent tallFn = 2001" by code_simp+
  have d: "wideFn \<noteq> tallFn" by code_simp
  note t = findAtPosition_smallest_range[where root = spanTree and ln = 10 and col = 100
      and fns = "[wideFn, tallFn]"]
  from t[where a = wideFn] s(1) x(1) have w: "nodeRange wideFn = Finite 5000" by simp
  from t[where a = tallFn] s(2) x(2) have l: "nodeRange tallFn = Finite 2001" by simp
  from t[where a = Null and b = Null and e = TypeError] f
  obtain pre n post where p: "filter (isCandidate 10 100) [wideFn, tallFn] = pre @ n # post"
    "findAtPosition spanTree 10 100 = Inr n"
    "\<forall>m \<in> set pre. lessNumber (nodeRange n) (nodeRange m)"
    "\<forall>m \<in> set post. \<not> lessNumber (nodeRange m) (nodeRange n)"
    unfolding c by auto
  have "n = tallFn"
  proof (rule ccontr)
    assume "n \<noteq> tallFn"
    with p(1) c have "tallFn \<in> set pre \<union> set post" "n = wideFn"
      by (metis Un_iff insert_iff list.set(2) set_append empty_iff empty_set)+
    with p(3,4) w l show False by auto
  qed
  with p(2) f c w l show ?thesis by simp
qed

text \<open>
  Two functions whose line span is 9007199254741 and whose column spans are 1 and 0: the
  range of both is 9007199254741000, the sum with 1 being no double, and the first one is
  returned. A node of the type \<open>hasOwnProperty\<close> makes the walk of a query throw.
\<close>

lemma findAtPosition_rounded_tie:
  "rangeOf (mkLoc 0 0 9007199254741 1) = Finite 9007199254741000
   \<and> findAtPosition
        (Arr [fnNode ''odd'' (mkLoc 0 0 9007199254741 1), fnNode ''even'' (mkLoc 0 0 9007199254741 0)])
        5 5 = Inr (fnNode ''odd'' (mkLoc 0 0 9007199254741 1))"
  by code_simp

lemma findAtPosition_prototype_member:
  "findAtPosition (Arr [Obj (Some ''hasOwnProperty'') None [], wideFn]) 10 100 = Inl TypeError
   \<and> findAtPosition (Arr [Obj (Some ''toString'') None [], wideFn]) 10 100 = Inr wideFn"
  by code_simp
section \<open>C4: when the walk descends\<close>

text \<open>
  C4 as the code has it. When the callback for the type of a node returns the boolean
  \<open>true\<close>, \<open>traverse\<close> ends with the state the callback left and visits no child. When it
  returns any other value, or the visitor has no callback for the type, \<open>traverse\<close> goes on
  with the children of the node. When the callback throws, so does \<open>traverse\<close>.
\<close>

theorem traverse_stops_on_true:
  assumes "node \<noteq> Null" and "node \<noteq> Undefined"
  shows "(visitor (typeKey node) = Some callback \<and> callback node parent st = Inr (Bool True, st') \<longrightarrow>
            traverse node visitor parent st = Inr st')
       \<and> (visitor (typeKey node) = Some callback \<and> callback node parent st = Inr (r, st') \<and> r \<noteq> Bool True \<longrightarrow>
            traverse node visitor parent st
              = forSteps (childSteps node) (\<lambda>child. traverse child visitor node) st')
       \<and> (visitor (typeKey node) = None \<longrightarrow>
            traverse node visitor parent st
              = forSteps (childSteps node) (\<lambda>child. traverse child visitor node) st)
       \<and> (visitor (typeKey node) = Some callback \<and> callback node parent st = Inl e \<longrightarrow>
            traverse node visitor parent st = Inl e)"
  using assms by (auto simp: traverse.simps[of node])

text \<open>
  C4 as stated fails: the callback of the example returns the truthy value 1, and the child
  is visited.
\<close>

theorem traverse_truthy_descends:
  "truthy (Num 1) \<and> traverse blockNode (logVisitor (Num 1)) Null [] = Inr [''Block'', ''Identifier'']"
  by code_simp

theorem traverse_stops_on_true_witness:
  "traverse blockNode (logVisitor (Bool True)) Null [] = Inr [''Block'']
   \<and> traverse blockNode (logVisitor (Bool False)) Null [] = Inr [''Block'', ''Identifier'']
   \<and> traverse blockNode (\<lambda>k. None) Null [] = Inr ([] :: string list)
   \<and> traverse blockNode (\<lambda>k. Some (\<lambda>n parent seen. Inl TypeError)) Null ([] :: string list)
        = Inl TypeError"
proof -
  have n: "blockNode \<noteq> Null" "blockNode \<noteq> Undefined" by (simp_all add: blockNode_def)
  have k: "typeKey blockNode = ''Block''" by (simp add: blockNode_def)
  have s: "childSteps blockNode = [Visit (Obj (Some ''Identifier'') None [])]"
    by code_simp
  have i: "traverse (Obj (Some ''Identifier'') None []) (logVisitor a) blockNode seen
             = Inr (seen @ [''Identifier''])" for a seen
    by (simp add: traverse.simps[of "Obj (Some ''Identifier'') None []"] logVisitor_def slotTable_def)
  have i0: "traverse (Obj (Some ''Identifier'') None []) (\<lambda>k. None) blockNode seen = Inr seen"
    for seen :: "string list"
    by (simp add: traverse.simps[of "Obj (Some ''Identifier'') None []"] slotTable_def)
  note t = traverse_stops_on_true[OF n]
  have "traverse blockNode (logVisitor (Bool True)) Null [] = Inr [''Block'']"
    using t[where visitor = "logVisitor (Bool True)"
        and callback = "\<lambda>n parent seen. Inr (Bool True, seen @ [''Block''])"
        and parent = Null and st = "[]" and st' = "[''Block'']"]
    by (simp add: k logVisitor_def)
  moreover have "traverse blockNode (logVisitor (Bool False)) Null [] = Inr [''Block'', ''Identifier'']"
    using t[where visitor = "logVisitor (Bool False)"
        and callback = "\<lambda>n parent seen. Inr (Bool False, seen @ [''Block''])"
        and parent = Null and st = "[]" and st' = "[''Block'']" and r = "Bool False"]
    by (simp add: k s i) (simp add: logVisitor_def)
  moreover have "traverse blockNode (\<lambda>k. None) Null [] = Inr ([] :: string list)"
    using t[where visitor = "\<lambda>k. None" and parent = Null and st = "[] :: string list"]
    by (simp add: s i0)
  moreover have "traverse blockNode (\<lambda>k. Some (\<lambda>n parent seen. Inl TypeError)) Null ([] :: string list)
        = Inl TypeError"
    using t[where visitor = "\<lambda>k. Some (\<lambda>n parent seen. Inl TypeError)"
        and callback = "\<lambda>n parent seen. Inl TypeError"
        and parent = Null and st = "[] :: string list" and e = TypeError]
    by simp
  ultimately show ?thesis by simp
qed
section \<open>C2: a parameter type named like an interface\<close>

text \<open>
  C2 says that no type reference returned by \<open>resolveTypes\<close> has a name of the form of an
  interface name, also for candidates from parameter types. The code returns one: for a
  parameter of the struct type \<open>IDCard\<close> the reference to the struct is returned, since
  \<open>extractFromTypeName\<close> lacks the test that \<open>addTypeIfValid\<close> makes. Without the parameter
  entry the same source gives no reference.
\<close>

theorem resolveTypes_interface_named_parameter:
  "resolveTypes cardFunction cardFile [(''a.sol'', cardFile)]
     = Some [\<lparr>t_name = ''IDCard'', t_kind = KStruct,
               t_definition = Some (StructDef (exStruct ''IDCard''))\<rparr>]
   \<and> rxTest interfaceNamePattern ''IDCard''
   \<and> resolveTypes (cardFunction\<lparr>f_parameters := []\<rparr>) cardFile [(''a.sol'', cardFile)] = Some []"
  by code_simp

section \<open>C5: search order of type resolution\<close>

lemma headOption_append:
  "headOption (xs @ ys) = (case headOption xs of Some x \<Rightarrow> Some x | None \<Rightarrow> headOption ys)"
  by (cases xs) (simp_all add: headOption_def)

lemma firstSome_headOption:
  "(\<And>x. x \<in> set xs \<Longrightarrow> f x = headOption (g x)) \<Longrightarrow>
     firstSome f xs = headOption (concat (map g xs))"
proof (induction xs)
  case Nil
  show ?case by (simp add: headOption_def)
next
  case (Cons a xs)
  have "firstSome f xs = headOption (concat (map g xs))" using Cons by simp
  moreover have "f a = headOption (g a)" using Cons.prems by simp
  ultimately show ?case by (simp add: headOption_append split: option.splits)
qed

lemma find_headOption: "find P xs = headOption (filter P xs)"
  by (induction xs) (simp_all add: headOption_def)

lemma headOption_map: "headOption (map f xs) = map_option f (headOption xs)"
  by (cases xs) (simp_all add: headOption_def)

lemma findTypeInContract_matchesIn:
  "findTypeInContract localName qualifier contract = headOption (matchesIn localName qualifier contract)"
  by (auto simp: findTypeInContract_def matchesIn_def skipsContract_def inScope_def
      find_headOption headOption_append headOption_map headOption_def
      split: option.splits list.splits)

lemma findTypeInFile_matchesIn:
  "findTypeInFile localName qualifier file
     = headOption (concat (map (matchesIn localName qualifier) (contracts file)))"
  unfolding findTypeInFile_def
  by (rule firstSome_headOption) (rule findTypeInContract_matchesIn)

lemma firstSome_skip:
  "firstSome (\<lambda>(path, parsedFile). if path = p then None else f parsedFile) ws
     = firstSome f (map snd (filter (\<lambda>(path, parsedFile). path \<noteq> p) ws))"
  by (induction ws) (auto split: option.splits if_splits)

lemma resolveType_firstMatch: "resolveType typeName cur ws = firstMatch typeName cur ws"
proof -
  let ?g = "\<lambda>file. concat (map (matchesIn (localNameOf typeName) (qualifierOf typeName)) (contracts file))"
  have "firstSome (findTypeInFile (localNameOf typeName) (qualifierOf typeName)) fs
          = headOption (concat (map ?g fs))" for fs
    by (rule firstSome_headOption) (rule findTypeInFile_matchesIn)
  then have "firstSome (findTypeInFile (localNameOf typeName) (qualifierOf typeName)) (searchOrder cur ws)
      = firstMatch typeName cur ws"
    by (simp add: firstMatch_def headOption_def)
  moreover have "resolveType typeName cur ws
      = firstSome (findTypeInFile (localNameOf typeName) (qualifierOf typeName)) (searchOrder cur ws)"
    by (simp add: resolveType_def Let_def searchOrder_def firstSome_skip split: option.splits)
  ultimately show ?thesis by simp
qed

lemma resolveType_definition:
  "resolveType typeName cur ws = Some r \<Longrightarrow> t_definition r \<noteq> None"
proof -
  have c: "findTypeInContract l q c = Some r \<Longrightarrow> t_definition r \<noteq> None" for l q c
    by (auto simp: findTypeInContract_def split: if_splits option.splits)
  have s: "firstSome f xs = Some r \<Longrightarrow> \<exists>x \<in> set xs. f x = Some r" for f :: "'x \<Rightarrow> TypeReference option" and xs
    by (induction xs) (auto split: option.splits)
  have f: "findTypeInFile l q pf = Some r \<Longrightarrow> t_definition r \<noteq> None" for l q pf
    unfolding findTypeInFile_def using s c by blast
  assume "resolveType typeName cur ws = Some r"
  then show ?thesis
    unfolding resolveType_def Let_def
    using f by (auto split: option.splits if_splits dest!: s)
qed

lemma resolveNames_firstOccurrences:
  "resolveNames names cur ws seen
     = List.map_filter (\<lambda>n. resolveType n cur ws)
         (firstOccurrences (filter (\<lambda>m. normalizedNameOf m \<notin> set seen) names))"
proof (induction names arbitrary: seen)
  case Nil
  show ?case by (simp add: List.map_filter_simps)
next
  case (Cons n ns)
  show ?case
  proof (cases "normalizedNameOf n \<in> set seen")
    case True
    then show ?thesis using Cons by simp
  next
    case False
    let ?R = "\<lambda>n. resolveType n cur ws"
    let ?rest = "filter (\<lambda>m. normalizedNameOf m \<noteq> normalizedNameOf n)
                 (filter (\<lambda>m. normalizedNameOf m \<notin> set seen) ns)"
    have flt: "?rest = filter (\<lambda>m. normalizedNameOf m \<notin> set (normalizedNameOf n # seen)) ns"
      by (induction ns) auto
    have ih: "resolveNames ns cur ws (normalizedNameOf n # seen)
                = List.map_filter ?R (firstOccurrences ?rest)"
      unfolding flt by (rule Cons)
    have rhs: "List.map_filter ?R
                 (firstOccurrences (filter (\<lambda>m. normalizedNameOf m \<notin> set seen) (n # ns)))
               = (case ?R n of None \<Rightarrow> List.map_filter ?R (firstOccurrences ?rest)
                  | Some r \<Rightarrow> r # List.map_filter ?R (firstOccurrences ?rest))"
      using False by (simp add: List.map_filter_simps split: option.splits)
    have lhs: "resolveNames (n # ns) cur ws seen
               = (case ?R n of None \<Rightarrow> resolveNames ns cur ws (normalizedNameOf n # seen)
                  | Some r \<Rightarrow> r # resolveNames ns cur ws (normalizedNameOf n # seen))"
      using False resolveType_definition[of n cur ws]
      by (auto simp: Let_def split: option.splits)
    show ?thesis unfolding lhs rhs ih ..
  qed
qed

lemma minLen_type_patterns:
  "0 < minLen varDeclPattern1" "0 < minLen varDeclPattern2" "0 < minLen structInstPattern"
  "0 < minLen enumAccessPattern" "0 < minLen typeComparePattern" "0 < minLen genericPattern"
  by (simp_all add: varDeclPattern1_def varDeclPattern2_def structInstPattern_def
      enumAccessPattern_def typeComparePattern_def genericPattern_def upperName_def
      spaces_def oneOrMore_def)

lemma scanTypes_Some: "0 < minLen r \<Longrightarrow> \<exists>ts. scanTypes r pick src types = Some ts"
  using execAll_Some[of r "[]" src] by (auto simp: scanTypes_def)

lemma extractTypesFromBody_Some: "\<exists>ts. extractTypesFromBody src types = Some ts"
proof -
  obtain t1 where t1: "scanTypes varDeclPattern1 (\<lambda>match. matchGroup match 1) src types = Some t1"
    using scanTypes_Some minLen_type_patterns(1) by blast
  obtain t2 where t2: "scanTypes varDeclPattern2 (\<lambda>match. matchGroup match 1) src t1 = Some t2"
    using scanTypes_Some minLen_type_patterns(2) by blast
  obtain t3 where t3: "scanTypes structInstPattern (\<lambda>match. matchGroup match 1) src t2 = Some t3"
    using scanTypes_Some minLen_type_patterns(3) by blast
  obtain t4 where t4: "scanTypes enumAccessPattern (\<lambda>match. matchGroup match 1) src t3 = Some t4"
    using scanTypes_Some minLen_type_patterns(4) by blast
  obtain t5 where t5: "scanTypes typeComparePattern firstOrSecond src t4 = Some t5"
    using scanTypes_Some minLen_type_patterns(5) by blast
  obtain t6 where t6: "scanTypes genericPattern genericName src t5 = Some t6"
    using scanTypes_Some minLen_type_patterns(6) by blast
  show ?thesis unfolding extractTypesFromBody_def t1 t2 t3 t4 t5 t6 Option.bind.simps by blast
qed

lemma extractAllTypeNames_Some: "\<exists>names. extractAllTypeNames F = Some names"
  by (simp add: extractAllTypeNames_def Let_def extractTypesFromBody_Some)

text \<open>
  C5. For every candidate name and every workspace, \<open>resolveType\<close> searches the function's
  own file first and then the other files of the index in insertion order, and returns the
  first struct or enum with the unqualified name of the candidate, in the contract named
  by the qualifier when there is one. \<open>resolveTypes\<close> always returns a list: the resolutions
  of the de-duplicated candidates, a candidate without a match adding nothing.
\<close>

theorem resolveType_search_order:
  "resolveType typeName cur ws = firstMatch typeName cur ws
   \<and> (\<exists>names. extractAllTypeNames F = Some names
        \<and> resolveTypes F cur ws
            = Some (List.map_filter (\<lambda>n. resolveType n cur ws) (firstOccurrences names)))"
proof -
  obtain names where n: "extractAllTypeNames F = Some names"
    using extractAllTypeNames_Some by blast
  then have "resolveTypes F cur ws
            = Some (List.map_filter (\<lambda>n. resolveType n cur ws) (firstOccurrences names))"
    by (simp add: resolveTypes_def resolveNames_firstOccurrences)
  with n show ?thesis by (simp add: resolveType_firstMatch)
qed

section \<open>C6: a contract is not among its own implementing contracts\<close>

lemma collect_reach:
  shows "collectInheritors depth inh name result = Some r \<Longrightarrow>
      set r \<subseteq> set result \<union> {x. (name, x) \<in> (inheritorEdges inh)\<^sup>+}"
    and "collectEach depth inh ds result = Some r \<Longrightarrow>
      set r \<subseteq> set result \<union> set ds \<union> {x. \<exists>d \<in> set ds. (d, x) \<in> (inheritorEdges inh)\<^sup>+}"
proof (induction depth inh name result and depth inh ds result arbitrary: r and r
    rule: collectInheritors_collectEach.induct)
  case (1 inh name result)
  then show ?case by simp
next
  case (2 depth inh name result)
  show ?case
  proof (cases "map_of inh name")
    case None
    with 2(2) show ?thesis by auto
  next
    case (Some ds)
    have e: "\<And>d. d \<in> set ds \<Longrightarrow> (name, d) \<in> inheritorEdges inh"
      using Some by (auto simp: inheritorEdges_def)
    from 2(2) have "collectEach depth inh ds result = Some r" using Some by simp
    from 2(1)[OF Some this] have
      "set r \<subseteq> set result \<union> set ds \<union> {x. \<exists>d \<in> set ds. (d, x) \<in> (inheritorEdges inh)\<^sup>+}" .
    moreover have "set ds \<subseteq> {x. (name, x) \<in> (inheritorEdges inh)\<^sup>+}"
      using e by auto
    moreover have "{x. \<exists>d \<in> set ds. (d, x) \<in> (inheritorEdges inh)\<^sup>+}
                     \<subseteq> {x. (name, x) \<in> (inheritorEdges inh)\<^sup>+}"
      using e by (auto intro: trancl_into_trancl2)
    ultimately show ?thesis by blast
  qed
next
  case (3 depth inh result)
  then show ?case by auto
next
  case (4 depth inh inheritor rest result)
  from 4(3) obtain r1 where r1: "collectInheritors depth inh inheritor (setAdd inheritor result) = Some r1"
    and r: "collectEach depth inh rest r1 = Some r"
    by (auto split: option.splits)
  from 4(1)[OF r1] have s1: "set r1 \<subseteq> set (setAdd inheritor result)
      \<union> {x. (inheritor, x) \<in> (inheritorEdges inh)\<^sup>+}" .
  from 4(2)[OF r1 r] have s2: "set r \<subseteq> set r1 \<union> set rest
      \<union> {x. \<exists>d \<in> set rest. (d, x) \<in> (inheritorEdges inh)\<^sup>+}" .
  from s1 s2 show ?case by (auto simp: set_setAdd)
qed

lemma collectEach_None:
  "y \<in> set ds \<Longrightarrow> (\<And>result. collectInheritors depth inh y result = None) \<Longrightarrow>
     collectEach depth inh ds result = None"
  by (induction ds arbitrary: result) (auto split: option.splits)

lemma collect_cycle_None:
  "(x, x) \<in> (inheritorEdges inh)\<^sup>+ \<Longrightarrow> collectInheritors depth inh x result = None"
proof (induction depth arbitrary: x result)
  case 0
  show ?case by simp
next
  case (Suc depth)
  from Suc.prems obtain y where xy: "(x, y) \<in> inheritorEdges inh"
    and yx: "(y, x) \<in> (inheritorEdges inh)\<^sup>*"
    by (auto dest: tranclD)
  from yx xy have "(y, y) \<in> (inheritorEdges inh)\<^sup>+" by (rule rtrancl_into_trancl1)
  then have n: "\<And>result. collectInheritors depth inh y result = None" by (rule Suc.IH)
  from xy obtain ds where ds: "map_of inh x = Some ds" "y \<in> set ds"
    by (auto simp: inheritorEdges_def)
  from collectEach_None[OF ds(2) n] ds(1) show ?case by simp
qed

lemma collect_not_self:
  "collectInheritors depth inh n [] = Some r \<Longrightarrow> n \<notin> set r"
proof
  assume a: "collectInheritors depth inh n [] = Some r" and "n \<in> set r"
  with collect_reach(1)[of depth inh n "[]" r] have "(n, n) \<in> (inheritorEdges inh)\<^sup>+" by auto
  from collect_cycle_None[OF this] a show False by simp
qed

lemma collect_mono:
  shows "collectInheritors depth inh name result = Some r \<Longrightarrow>
      collectInheritors (depth + k) inh name result = Some r"
    and "collectEach depth inh ds result = Some r \<Longrightarrow>
      collectEach (depth + k) inh ds result = Some r"
proof (induction depth inh name result and depth inh ds result arbitrary: r and r
    rule: collectInheritors_collectEach.induct)
  case (1 inh name result)
  then show ?case by simp
next
  case (2 depth inh name result)
  then show ?case by (cases "map_of inh name") auto
next
  case (3 depth inh result)
  then show ?case by simp
next
  case (4 depth inh inheritor rest result)
  from 4(3) obtain r1 where r1: "collectInheritors depth inh inheritor (setAdd inheritor result) = Some r1"
    and r: "collectEach depth inh rest r1 = Some r"
    by (auto split: option.splits)
  from 4(1)[OF r1] 4(2)[OF r1 r] show ?case by simp
qed

lemma finite_inheritorEdges: "finite (inheritorEdges inh)"
proof -
  have "inheritorEdges inh \<subseteq> fst ` set inh \<times> \<Union> (set ` snd ` set inh)"
    by (auto simp: inheritorEdges_def dest!: map_of_SomeD) force+
  then show ?thesis by (rule finite_subset) auto
qed

lemma collectEach_enough:
  "(\<And>d. d \<in> set ds \<Longrightarrow> \<exists>depth. \<forall>result. \<exists>r. collectInheritors depth inh d result = Some r) \<Longrightarrow>
     \<exists>depth. \<forall>result. \<exists>r. collectEach depth inh ds result = Some r"
proof (induction ds)
  case Nil
  show ?case by simp
next
  case (Cons d ds)
  from Cons.prems obtain k1 where k1: "\<And>result. \<exists>r. collectInheritors k1 inh d result = Some r"
    by (metis list.set_intros(1))
  from Cons obtain k2 where k2: "\<And>result. \<exists>r. collectEach k2 inh ds result = Some r"
    by (metis list.set_intros(2))
  have "\<exists>r. collectEach (k1 + k2) inh (d # ds) result = Some r" for result
  proof -
    from k1 obtain r1 where "collectInheritors k1 inh d (setAdd d result) = Some r1" by blast
    from collect_mono(1)[OF this, of k2]
    have a: "collectInheritors (k1 + k2) inh d (setAdd d result) = Some r1" .
    from k2 obtain r2 where "collectEach k2 inh ds r1 = Some r2" by blast
    from collect_mono(2)[OF this, of k1]
    have "collectEach (k1 + k2) inh ds r1 = Some r2" by (simp add: add.commute)
    with a show ?thesis by simp
  qed
  then show ?case by blast
qed

lemma collect_acyclic_Some:
  assumes "acyclic (inheritorEdges inh)"
  shows "\<exists>depth. \<forall>result. \<exists>r. collectInheritors depth inh n result = Some r"
proof -
  have "wf ((inheritorEdges inh)\<inverse>)"
    using assms finite_inheritorEdges by (rule finite_acyclic_wf_converse[rotated])
  then show ?thesis
  proof (induction n rule: wf_induct_rule)
    case (less x)
    show ?case
    proof (cases "map_of inh x")
      case None
      then have "\<forall>result. \<exists>r. collectInheritors (Suc 0) inh x result = Some r" by simp
      then show ?thesis by blast
    next
      case (Some ds)
      have "\<exists>depth. \<forall>result. \<exists>r. collectInheritors depth inh d result = Some r" if "d \<in> set ds" for d
        using less[of d] Some that by (auto simp: inheritorEdges_def)
      from collectEach_enough[OF this] obtain k where
        "\<forall>result. \<exists>r. collectEach k inh ds result = Some r" by blast
      then have "\<forall>result. \<exists>r. collectInheritors (Suc k) inh x result = Some r"
        using Some by simp
      then show ?thesis by blast
    qed
  qed
qed

lemma map_of_mapSet: "map_of (mapSet k v m) = (map_of m)(k \<mapsto> v)"
  by (induction m) (auto simp: fun_eq_iff)

lemma keys_mapSet: "fst ` set (mapSet k v m) = insert k (fst ` set m)"
  by (simp add: dom_map_of_conv_image_fst[symmetric] map_of_mapSet)

lemma distinct_mapSet: "distinct (map fst m) \<Longrightarrow> distinct (map fst (mapSet k v m))"
proof (induction m)
  case Nil
  show ?case by simp
next
  case (Cons e m)
  obtain k' v' where e: "e = (k', v')" by (cases e)
  from Cons show ?case unfolding e using keys_mapSet[of k v m] by auto
qed

lemma distinct_collectContracts: "distinct (map fst (collectContracts ws))"
proof -
  have inner: "distinct (map fst cm) \<Longrightarrow>
      distinct (map fst (fold (\<lambda>contract cm. mapSet (c_name contract) contract cm) cs cm))"
    for cs and cm :: "(string \<times> ContractInfo) list"
    by (induction cs arbitrary: cm) (simp_all add: distinct_mapSet)
  have "distinct (map fst cm) \<Longrightarrow>
      distinct (map fst (fold (\<lambda>(path, parsedFile) cm.
             fold (\<lambda>contract cm. mapSet (c_name contract) contract cm) (contracts parsedFile) cm)
       ws cm))" for cm :: "(string \<times> ContractInfo) list"
    by (induction ws arbitrary: cm) (auto simp: inner)
  then show ?thesis by (simp add: collectContracts_def)
qed

lemma edges_addInheritor:
  "inheritorEdges (addInheritor name b inh) = insert (b, name) (inheritorEdges inh)"
  by (auto simp: inheritorEdges_def addInheritor_def map_of_mapSet set_setAdd split: option.splits if_splits)

lemma edges_fold_addInheritor:
  "inheritorEdges (fold (addInheritor name) bs inh) = (\<lambda>b. (b, name)) ` set bs \<union> inheritorEdges inh"
  by (induction bs arbitrary: inh) (auto simp: edges_addInheritor)

lemma edges_fold_contracts:
  "inheritorEdges (fold (\<lambda>(name, contract) inh. fold (addInheritor name) (c_baseContracts contract) inh) cm inh)
     = {(b, d). \<exists>c. (d, c) \<in> set cm \<and> b \<in> set (c_baseContracts c)} \<union> inheritorEdges inh"
proof (induction cm arbitrary: inh)
  case Nil
  show ?case by simp
next
  case (Cons e cm)
  obtain n c where e: "e = (n, c)" by (cases e)
  show ?case unfolding e by (simp add: Cons edges_fold_addInheritor) blast
qed

lemma inheritorEdges_Nil: "inheritorEdges [] = {}"
  by (simp add: inheritorEdges_def)

lemma edges_built:
  "inheritorEdges (inheritedBy (buildInheritanceGraph ws)) = (declaredBase (buildInheritanceGraph ws))\<inverse>"
proof -
  let ?cm = "collectContracts ws"
  have "map_of ?cm d = Some c \<longleftrightarrow> (d, c) \<in> set ?cm" for d c
    using distinct_collectContracts[of ws] by (auto dest: map_of_SomeD)
  then show ?thesis
    by (auto simp: buildInheritanceGraph_def Let_def collectInherited_def edges_fold_contracts
        inheritorEdges_Nil declaredBase_def)
qed

lemma collect_reachable_cycle_None:
  assumes "(n, x) \<in> (inheritorEdges inh)\<^sup>*" and "(x, x) \<in> (inheritorEdges inh)\<^sup>+"
  shows "collectInheritors depth inh n result = None"
  using assms(1) 
proof (induction arbitrary: depth result rule: converse_rtrancl_induct)
  case base
  show ?case using assms(2) by (rule collect_cycle_None)
next
  case (step n y)
  show ?case
  proof (cases depth)
    case 0
    then show ?thesis by simp
  next
    case (Suc k)
    from step(1) obtain ds where ds: "map_of inh n = Some ds" "y \<in> set ds"
      by (auto simp: inheritorEdges_def)
    from collectEach_None[OF ds(2), of k inh] step(3) ds(1) Suc show ?thesis by simp
  qed
qed

text \<open>
  C6. For the graph built from any workspace and any name \<open>n\<close>: a list returned by
  \<open>getImplementingContracts n\<close> never holds \<open>n\<close>. The call returns no list (at any depth of the
  stack) when \<open>n\<close> or a contract derived from it lies on a cycle of declared bases, and it
  returns a list when the declared bases have no cycle.
\<close>

theorem getImplementingContracts_not_self:
  "(getImplementingContracts depth (buildInheritanceGraph ws) n = Some r \<longrightarrow> n \<notin> set r)
   \<and> ((x, n) \<in> (declaredBase (buildInheritanceGraph ws))\<^sup>*
        \<and> (x, x) \<in> (declaredBase (buildInheritanceGraph ws))\<^sup>+ \<longrightarrow>
        getImplementingContracts depth (buildInheritanceGraph ws) n = None)
   \<and> (acyclic (declaredBase (buildInheritanceGraph ws)) \<longrightarrow>
        (\<exists>enough r'. getImplementingContracts enough (buildInheritanceGraph ws) n = Some r'))"
proof -
  let ?G = "buildInheritanceGraph ws"
  have a: "getImplementingContracts depth ?G n = Some r \<longrightarrow> n \<notin> set r"
    unfolding getImplementingContracts_def using collect_not_self by blast
  have b: "getImplementingContracts depth ?G n = None"
    if "(x, n) \<in> (declaredBase ?G)\<^sup>*" "(x, x) \<in> (declaredBase ?G)\<^sup>+"
  proof -
    from that have "(n, x) \<in> ((declaredBase ?G)\<inverse>)\<^sup>*" "(x, x) \<in> ((declaredBase ?G)\<inverse>)\<^sup>+"
      by (simp_all add: trancl_converse rtrancl_converse)
    then show ?thesis
      unfolding getImplementingContracts_def edges_built[symmetric]
      by (rule collect_reachable_cycle_None)
  qed
  have c: "\<exists>enough r'. getImplementingContracts enough ?G n = Some r'" if "acyclic (declaredBase ?G)"
  proof -
    from that have "acyclic (inheritorEdges (inheritedBy ?G))" by (simp add: edges_built)
    from collect_acyclic_Some[OF this, of n] show ?thesis
      unfolding getImplementingContracts_def by blast
  qed
  from a b c show ?thesis by blast
qed

theorem getImplementingContracts_not_self_witness:
  "getImplementingContracts 3 (buildInheritanceGraph chainWorkspace) ''A'' = Some [''B'', ''C'']
   \<and> ''A'' \<notin> set [''B'', ''C'']
   \<and> getImplementingContracts 3 (buildInheritanceGraph cyclicWorkspace) ''A'' = None"
proof -
  let ?G = "buildInheritanceGraph chainWorkspace"
  let ?H = "buildInheritanceGraph cyclicWorkspace"
  have e: "getImplementingContracts 3 ?G ''A'' = Some [''B'', ''C'']"
    by code_simp
  have cmG: "contractMap ?G =
      [(''A'', exContract ''A'' KContract [] [] []), (''B'', exContract ''B'' KContract [''A''] [] []),
       (''C'', exContract ''C'' KContract [''B''] [] [])]"
    by (simp add: buildInheritanceGraph_def chainWorkspace_def collectContracts_def exFile_def
        exContract_def Let_def)
  have dG: "declaredBase ?G = {(''B'', ''A''), (''C'', ''B'')}"
    unfolding declaredBase_def cmG by (auto simp: exContract_def split: if_splits)
  have acy: "acyclic (declaredBase ?G)"
    unfolding dG
    by (rule acyclicI_order[where f = "\<lambda>n. if n = ''A'' then 0 else if n = ''B'' then 1 else (2::nat)"]) auto
  have cmH: "contractMap ?H =
      [(''A'', exContract ''A'' KContract [''B''] [] []), (''B'', exContract ''B'' KContract [''A''] [] [])]"
    by (simp add: buildInheritanceGraph_def cyclicWorkspace_def collectContracts_def exFile_def
        exContract_def Let_def)
  have "(''A'', ''B'') \<in> declaredBase ?H" "(''B'', ''A'') \<in> declaredBase ?H"
    unfolding declaredBase_def cmH by (auto simp: exContract_def)
  then have cyc: "(''A'', ''A'') \<in> (declaredBase ?H)\<^sup>+" by (rule trancl_into_trancl[OF r_into_trancl])
  note t1 = getImplementingContracts_not_self[of 3 chainWorkspace "''A''" "[''B'', ''C'']"]
  note t2 = getImplementingContracts_not_self[of 3 cyclicWorkspace "''A''" "[]" "''A''"]
  from t1 e acy have "''A'' \<notin> set [''B'', ''C'']" by blast
  moreover from t2 cyc have "getImplementingContracts 3 ?H ''A'' = None" by blast
  ultimately show ?thesis using e by blast
qed

section \<open>C7: an inherited implementation\<close>

lemma map_of_fold_mapSet:
  "map_of (fold (\<lambda>(name, contract) chains. mapSet name (f name) chains) xs acc) k
     = (if k \<in> fst ` set xs then Some (f k) else map_of acc k)"
  by (induction xs arbitrary: acc) (auto simp: map_of_mapSet)

text \<open>A chain starts with the name of its contract.\<close>

lemma names_prefix:
  "\<exists>ys. fold (\<lambda>name chain. if name \<in> set chain then chain else chain @ [name]) xs init = init @ ys"
proof (induction xs arbitrary: init)
  case Nil
  show ?case by simp
next
  case (Cons x xs)
  show ?case
  proof (cases "x \<in> set init")
    case True
    with Cons[of init] show ?thesis by simp
  next
    case False
    from Cons[of "init @ [x]"] obtain ys where
      "fold (\<lambda>name chain. if name \<in> set chain then chain else chain @ [name]) xs (init @ [x])
         = (init @ [x]) @ ys" by blast
    with False show ?thesis by simp
  qed
qed

lemma bases_prefix:
  "\<exists>ys. fold (\<lambda>baseName chain.
                fold (\<lambda>name chain. if name \<in> set chain then chain else chain @ [name])
                  (g baseName) chain) bs init = init @ ys"
proof (induction bs arbitrary: init)
  case Nil
  show ?case by simp
next
  case (Cons b bs)
  from names_prefix[of "g b" init] obtain ys where
    ys: "fold (\<lambda>name chain. if name \<in> set chain then chain else chain @ [name]) (g b) init = init @ ys"
    by blast
  from Cons[of "init @ ys"] obtain zs where
    "fold (\<lambda>baseName chain.
             fold (\<lambda>name chain. if name \<in> set chain then chain else chain @ [name])
               (g baseName) chain) bs (init @ ys) = (init @ ys) @ zs" by blast
  with ys show ?case by simp
qed

lemma chain_head:
  assumes "contractName \<notin> set visited"
  shows "\<exists>ys. computeInheritanceChain cm contractName visited = contractName # ys"
proof (cases "map_of cm contractName")
  case None
  with assms show ?thesis by (subst computeInheritanceChain.simps) simp
next
  case (Some contract)
  from bases_prefix[of "\<lambda>baseName. computeInheritanceChain cm baseName (setAdd contractName visited)"
      "c_baseContracts contract" "[contractName]"]
  obtain ys where
    "fold (\<lambda>baseName chain.
             fold (\<lambda>name chain. if name \<in> set chain then chain else chain @ [name])
               (computeInheritanceChain cm baseName (setAdd contractName visited)) chain)
       (c_baseContracts contract) [contractName] = [contractName] @ ys" by blast
  with assms Some show ?thesis by (subst computeInheritanceChain.simps) simp
qed

lemma chain_single_base:
  assumes "map_of cm B = Some cB" and "c_baseContracts cB = [A]" and "A \<noteq> B"
  shows "\<exists>rest. computeInheritanceChain cm B [] = B # A # rest"
proof -
  from chain_head[of A "[B]" cm] assms(3) obtain ys where
    ys: "computeInheritanceChain cm A [B] = A # ys" by auto
  from names_prefix[of ys "[B, A]"] obtain zs where
    zs: "fold (\<lambda>name chain. if name \<in> set chain then chain else chain @ [name]) ys [B, A]
           = [B, A] @ zs" by blast
  have "computeInheritanceChain cm B [] = [B, A] @ zs"
    using assms ys zs by (subst computeInheritanceChain.simps) (simp add: setAdd_def)
  then show ?thesis by simp
qed

text \<open>The set of results only grows, and holds every inheritor that is gone through.\<close>

lemma collect_grows:
  shows "collectInheritors depth inh name result = Some r \<Longrightarrow> set result \<subseteq> set r"
    and "collectEach depth inh ds result = Some r \<Longrightarrow> set result \<union> set ds \<subseteq> set r"
proof (induction depth inh name result and depth inh ds result arbitrary: r and r
    rule: collectInheritors_collectEach.induct)
  case (1 inh name result)
  then show ?case by simp
next
  case (2 depth inh name result)
  then show ?case by (cases "map_of inh name") auto
next
  case (3 depth inh result)
  then show ?case by simp
next
  case (4 depth inh inheritor rest result)
  from 4(3) obtain r1 where r1: "collectInheritors depth inh inheritor (setAdd inheritor result) = Some r1"
    and r: "collectEach depth inh rest r1 = Some r"
    by (auto split: option.splits)
  from 4(1)[OF r1] have "set result \<union> {inheritor} \<subseteq> set r1" by (simp add: set_setAdd)
  moreover from 4(2)[OF r1 r] have "set r1 \<union> set rest \<subseteq> set r" .
  ultimately show ?case by auto
qed

lemma implementationsOf_member:
  assumes "n \<in> set names" and "map_of (contractMap this) n = Some c" and "c_kind c \<noteq> KInterface"
    and "findMethodInContract this n m = Some impl"
  shows "impl \<in> set (implementationsOf this m names)"
  using assms(1)
proof (induction names)
  case Nil
  then show ?case by simp
next
  case (Cons x xs)
  show ?case
  proof (cases "x = n")
    case True
    with assms(2-4) show ?thesis by simp
  next
    case False
    with Cons have "impl \<in> set (implementationsOf this m xs)" by simp
    then show ?thesis by (simp split: option.splits)
  qed
qed

text \<open>A contract without inheritors adds nothing, and so a sole inheritor is the result.\<close>

lemma collect_leaf:
  assumes "\<And>x. (B, x) \<notin> inheritorEdges inh"
  shows "collectInheritors (Suc depth) inh B result = Some result"
proof (cases "map_of inh B")
  case None
  then show ?thesis by simp
next
  case (Some ds)
  have "ds = []"
  proof (rule ccontr)
    assume "ds \<noteq> []"
    then obtain x where "x \<in> set ds" by (cases ds) auto
    with Some have "(B, x) \<in> inheritorEdges inh" by (auto simp: inheritorEdges_def)
    with assms show False by simp
  qed
  with Some show ?thesis by simp
qed

lemma collectEach_sole:
  assumes "\<And>x. (B, x) \<notin> inheritorEdges inh" and "set ds \<subseteq> {B}"
  shows "collectEach (Suc depth) inh ds result = Some (if ds = [] then result else setAdd B result)"
  using assms(2)
proof (induction ds arbitrary: result)
  case Nil
  show ?case by simp
next
  case (Cons d ds)
  then have d: "d = B" and ds: "set ds \<subseteq> {B}" by auto
  have "setAdd B (setAdd B result) = setAdd B result" by (simp add: setAdd_def)
  with Cons.IH[OF ds, of "setAdd B result"] collect_leaf[OF assms(1), of depth "setAdd B result"] d
  show ?case by simp
qed

text \<open>
  C7 as the code has it. In the graph built from a workspace whose contract map holds \<open>A\<close>,
  not an interface, whose first function named \<open>m\<close> has a body, and \<open>B\<close>, not an
  interface, whose only declared base is \<open>A\<close> and which does not implement \<open>m\<close>: the chain
  of \<open>B\<close> starts with \<open>B\<close> and \<open>A\<close>; every list that \<open>findImplementations A m\<close> returns holds
  the entry of \<open>B\<close>, with the contract name \<open>A\<close>, the function of \<open>A\<close>, \<open>isInherited\<close> true
  and the chain of \<open>B\<close>; a list is returned when the declared bases have no cycle; and the
  entry of \<open>B\<close> is the only one when \<open>B\<close> is the sole inheritor of \<open>A\<close>.
\<close>

theorem findImplementations_inherited:
  assumes A: "map_of (contractMap (buildInheritanceGraph ws)) A = Some cA"
    and kA: "c_kind cA \<noteq> KInterface"
    and fA: "find (\<lambda>f. f_name f = m) (c_functions cA) = Some func" "hasBody func"
    and B: "map_of (contractMap (buildInheritanceGraph ws)) B = Some cB"
    and kB: "c_kind cB \<noteq> KInterface"
    and bB: "c_baseContracts cB = [A]"
    and fB: "\<not> implementsMethod cB m"
  shows "\<exists>rest.
      map_of (inheritanceChains (buildInheritanceGraph ws)) B = Some (B # A # rest)
    \<and> (\<forall>depth impls. findImplementations depth (buildInheritanceGraph ws) A m = Some impls \<longrightarrow>
          inheritedImplementation A cA func (B # A # rest) \<in> set impls)
    \<and> (acyclic (declaredBase (buildInheritanceGraph ws)) \<longrightarrow>
          (\<exists>enough impls. findImplementations enough (buildInheritanceGraph ws) A m = Some impls))
    \<and> (soleInheritor (buildInheritanceGraph ws) A B \<longrightarrow>
          (\<forall>depth \<ge> 2. findImplementations depth (buildInheritanceGraph ws) A m
             = Some [inheritedImplementation A cA func (B # A # rest)]))"
proof -
  let ?G = "buildInheritanceGraph ws"
  let ?cm = "collectContracts ws"
  let ?inh = "inheritedBy ?G"
  have cm: "contractMap ?G = ?cm" by (simp add: buildInheritanceGraph_def Let_def)
  note A' = A[unfolded cm] and B' = B[unfolded cm]
  have AB: "A \<noteq> B"
  proof
    assume "A = B"
    with A B have "cA = cB" by simp
    with fA fB show False by (simp add: implementsMethod_def)
  qed
  have "B \<in> fst ` set ?cm"
    using map_of_SomeD[OF B'] image_eqI[of B fst "(B, cB)" "set ?cm"] by simp
  then have chainB: "map_of (inheritanceChains ?G) B = Some (computeInheritanceChain ?cm B [])"
    by (simp add: buildInheritanceGraph_def Let_def collectChains_def map_of_fold_mapSet)
  from chain_single_base[OF B' bB AB] obtain rest where
    rest: "computeInheritanceChain ?cm B [] = B # A # rest" by blast
  let ?entry = "inheritedImplementation A cA func (B # A # rest)"
  have noB: "find (\<lambda>f. f_name f = m) (c_functions cB) = None
             \<or> (\<exists>f. find (\<lambda>f. f_name f = m) (c_functions cB) = Some f \<and> \<not> hasBody f)"
    using fB by (auto simp: implementsMethod_def split: option.splits)
  have meth: "findMethodInContract ?G B m = Some ?entry"
    using noB AB A B kA kB fA
    by (auto simp: findMethodInContract_def chainB rest inheritedImplementation_def)
  have edge: "(A, B) \<in> inheritorEdges ?inh"
    unfolding edges_built using B bB by (auto simp: declaredBase_def)
  then obtain ds where ds: "map_of ?inh A = Some ds" "B \<in> set ds"
    by (auto simp: inheritorEdges_def)
  have 1: "map_of (inheritanceChains ?G) B = Some (B # A # rest)"
    by (simp add: chainB rest)
  have 2: "?entry \<in> set impls" if f: "findImplementations depth ?G A m = Some impls"
    for depth impls
  proof -
    from f obtain names where names: "getImplementingContracts depth ?G A = Some names"
      and impls: "impls = implementationsOf ?G m names"
      by (auto simp: findImplementations_def)
    obtain k where k: "depth = Suc k"
      using names by (cases depth) (simp_all add: getImplementingContracts_def)
    from names have "collectEach k ?inh ds [] = Some names"
      by (simp add: getImplementingContracts_def k ds(1))
    from collect_grows(2)[OF this] ds(2) have "B \<in> set names" by auto
    from implementationsOf_member[OF this B kB meth] impls show ?thesis by simp
  qed
  have 3: "\<exists>enough impls. findImplementations enough ?G A m = Some impls"
    if "acyclic (declaredBase ?G)"
  proof -
    from that have "acyclic (inheritorEdges ?inh)" by (simp add: edges_built)
    from collect_acyclic_Some[OF this, of A] obtain enough r where
      "collectInheritors enough ?inh A [] = Some r" by blast
    then show ?thesis
      by (auto simp: findImplementations_def getImplementingContracts_def)
  qed
  have 4: "findImplementations depth ?G A m = Some [?entry]"
    if s: "soleInheritor ?G A B" and d: "2 \<le> depth" for depth
  proof -
    from s have all: "\<And>n c. (n, c) \<in> set ?cm \<Longrightarrow>
        (A \<in> set (c_baseContracts c) \<longrightarrow> n = B) \<and> B \<notin> set (c_baseContracts c)"
      by (auto simp: soleInheritor_def cm list_all_iff)
    have leaf: "(B, x) \<notin> inheritorEdges ?inh" for x
      unfolding edges_built using all
      by (auto simp: declaredBase_def cm dest!: map_of_SomeD)
    have "set ds \<subseteq> {B}"
    proof
      fix x assume "x \<in> set ds"
      with ds(1) have "(A, x) \<in> inheritorEdges ?inh" by (auto simp: inheritorEdges_def)
      then have "(x, A) \<in> declaredBase ?G" unfolding edges_built by simp
      with all show "x \<in> {B}" by (auto simp: declaredBase_def cm dest!: map_of_SomeD)
    qed
    from collectEach_sole[OF leaf this] ds(2)
    have each: "collectEach (Suc k) ?inh ds [] = Some [B]" for k
      by (auto simp: setAdd_def)
    obtain k where k: "depth = Suc (Suc k)"
      using d by (metis One_nat_def Suc_1 Suc_le_D Suc_le_mono)
    have "getImplementingContracts depth ?G A = Some [B]"
      by (simp add: getImplementingContracts_def k ds(1) each)
    then show ?thesis
      using B kB by (simp add: findImplementations_def meth)
  qed
  from 1 2 3 4 show ?thesis by blast
qed

text \<open>
  C7 as stated fails. With a second contract derived from \<open>A\<close> the list has two entries; and
  when the first of two functions \<open>m\<close> of \<open>A\<close> has no body, the list is empty although
  \<open>A\<close> has a function \<open>m\<close> with a body.
\<close>

theorem findImplementations_not_single:
  "findImplementations 2 (buildInheritanceGraph twoDerivedWorkspace) ''A'' ''m''
     = Some [inheritedImplementation ''A'' (exContract ''A'' KContract [] [methodM] []) methodM
               [''B'', ''A''],
             inheritedImplementation ''A'' (exContract ''A'' KContract [] [methodM] []) methodM
               [''C'', ''A'']]
   \<and> list_ex (\<lambda>f. f_name f = ''m'' \<and> hasBody f) (c_functions overloadedContract)
   \<and> findImplementations 2 (buildInheritanceGraph overloadWorkspace) ''A'' ''m'' = Some []"
  by code_simp

theorem findImplementations_inherited_witness:
  "findImplementations 2 (buildInheritanceGraph inheritWorkspace) ''A'' ''m''
     = Some [inheritedImplementation ''A'' baseContract methodM [''B'', ''A'', ''Z'']]"
proof -
  let ?G = "buildInheritanceGraph inheritWorkspace"
  have cm: "contractMap ?G
              = [(''Z'', exContract ''Z'' KContract [] [] []), (''A'', baseContract),
                 (''B'', derivedContract), (''E'', exContract ''E'' KContract [] [] []),
                 (''D'', exContract ''D'' KContract [''E''] [] [])]"
    by (simp add: buildInheritanceGraph_def inheritWorkspace_def collectContracts_def exFile_def
        baseContract_def derivedContract_def exContract_def Let_def)
  have body: "hasBody methodM" by code_simp
  have chain: "map_of (inheritanceChains ?G) ''B'' = Some [''B'', ''A'', ''Z'']" by code_simp
  have sole: "soleInheritor ?G ''A'' ''B''"
    by (simp add: soleInheritor_def cm baseContract_def derivedContract_def exContract_def)
  have "\<exists>rest.
      map_of (inheritanceChains ?G) ''B'' = Some (''B'' # ''A'' # rest)
    \<and> (\<forall>depth impls. findImplementations depth ?G ''A'' ''m'' = Some impls \<longrightarrow>
          inheritedImplementation ''A'' baseContract methodM (''B'' # ''A'' # rest) \<in> set impls)
    \<and> (acyclic (declaredBase ?G) \<longrightarrow>
          (\<exists>enough impls. findImplementations enough ?G ''A'' ''m'' = Some impls))
    \<and> (soleInheritor ?G ''A'' ''B'' \<longrightarrow>
          (\<forall>depth \<ge> 2. findImplementations depth ?G ''A'' ''m''
             = Some [inheritedImplementation ''A'' baseContract methodM (''B'' # ''A'' # rest)]))"
  proof (rule findImplementations_inherited[where cB = derivedContract])
    show "map_of (contractMap ?G) ''A'' = Some baseContract" by (simp add: cm)
    show "c_kind baseContract \<noteq> KInterface" by (simp add: baseContract_def exContract_def)
    show "find (\<lambda>f. f_name f = ''m'') (c_functions baseContract) = Some methodM"
      by (simp add: baseContract_def exContract_def methodM_def exFunction_def)
    show "hasBody methodM" by (rule body)
    show "map_of (contractMap ?G) ''B'' = Some derivedContract" by (simp add: cm)
    show "c_kind derivedContract \<noteq> KInterface" by (simp add: derivedContract_def exContract_def)
    show "c_baseContracts derivedContract = [''A'']" by (simp add: derivedContract_def exContract_def)
    show "\<not> implementsMethod derivedContract ''m''"
      by (simp add: implementsMethod_def derivedContract_def exContract_def)
  qed
  then obtain rest where r: "map_of (inheritanceChains ?G) ''B'' = Some (''B'' # ''A'' # rest)"
    "soleInheritor ?G ''A'' ''B'' \<longrightarrow>
       (\<forall>depth \<ge> 2. findImplementations depth ?G ''A'' ''m''
          = Some [inheritedImplementation ''A'' baseContract methodM (''B'' # ''A'' # rest)])"
    by blast
  from r(1) chain have "rest = [''Z'']" by simp
  with r(2) sole show ?thesis by simp
qed
section \<open>C9: the point query for functions ignores a qualifier\<close>

text \<open>
  C9. For every qualified name \<open>X.f\<close> and every workspace, \<open>resolveSingleFunction\<close> ignores
  the qualifier: its result is that of \<open>resolveSingleFunction f\<close>, the first function with the
  local name in any contract of any file, in insertion order, also when that contract is not
  named \<open>X\<close> (in the example workspace only contract \<open>Y\<close> declares \<open>f\<close>), whereas
  \<open>resolveSingleType\<close> finds nothing for \<open>X.T\<close> there, \<open>T\<close> being declared by \<open>Y\<close> only.
\<close>

theorem resolveSingleFunction_ignores_qualifier:
  "resolveSingleFunction (X @ ''.'' @ f) ws = resolveSingleFunction f ws
   \<and> resolveSingleFunction (X @ ''.'' @ f) ws
       = find (\<lambda>func. f_name func = localNameOf f) (allFunctions ws)
   \<and> resolveSingleFunction ''X.f'' otherContractWorkspace
       = Some (exFunction ''f'' ''{ }'' ''function f() { }'')
   \<and> resolveSingleType ''X.T'' otherContractWorkspace = None"
proof -
  have a: "resolveSingleFunction (X @ ''.'' @ f) ws = resolveSingleFunction f ws"
    by (simp add: resolveSingleFunction_def localNameOf_qualified)
  have b: "resolveSingleFunction (X @ ''.'' @ f) ws
       = find (\<lambda>func. f_name func = localNameOf f) (allFunctions ws)"
    by (simp add: resolveSingleFunction_find localNameOf_qualified)
  have c: "resolveSingleFunction ''X.f'' otherContractWorkspace
       = Some (exFunction ''f'' ''{ }'' ''function f() { }'')"
    by (simp add: resolveSingleFunction_def localNameOf_def Let_def otherContractWorkspace_def
        exFile_def exContract_def findInContracts_def exFunction_def)
  have d: "resolveSingleType ''X.T'' otherContractWorkspace = None"
    by (simp add: resolveSingleType_def localNameOf_def qualifierOf_def Let_def
        otherContractWorkspace_def exFile_def exContract_def findTypeInFile_def
        findTypeInContract_def skipsContract_def exStruct_def)
  from a b c d show ?thesis by blast
qed

section \<open>C10: a type qualifier restricts the search\<close>

text \<open>
  C10. For a qualified type name \<open>X.T\<close> (\<open>X\<close> a non-empty name, \<open>X\<close> and \<open>T\<close> without dots)
  and every workspace, \<open>resolveSingleType\<close> returns null whenever no contract named \<open>X\<close>
  declares a struct or enum named \<open>T\<close>, whatever the other contracts declare: there is no
  fallback to an unqualified match.
\<close>

theorem resolveSingleType_qualifier_restricts:
  assumes "X \<noteq> []" and "CHR ''.'' \<notin> set X" and "CHR ''.'' \<notin> set T"
    and "\<forall>(path, parsedFile) \<in> set ws. \<forall>c \<in> set (contracts parsedFile).
           c_name c = X \<longrightarrow> T \<notin> s_name ` set (c_structs c) \<and> T \<notin> e_name ` set (c_enums c)"
  shows "resolveSingleType (X @ ''.'' @ T) ws = None"
proof -
  have q: "qualifierOf (X @ ''.'' @ T) = Some X"
    using assms(2) by (simp add: qualifierOf_qualified)
  have l: "localNameOf (X @ ''.'' @ T) = T"
    using assms(3) by (simp add: localNameOf_qualified localNameOf_plain)
  have c: "findTypeInContract T (Some X) c = None"
    if "(path, parsedFile) \<in> set ws" "c \<in> set (contracts parsedFile)" for path parsedFile c
  proof (cases "c_name c = X")
    case False
    then show ?thesis using assms(1) by (simp add: findTypeInContract_def skipsContract_def)
  next
    case True
    with assms(4) that have "T \<notin> s_name ` set (c_structs c)" "T \<notin> e_name ` set (c_enums c)"
      by fastforce+
    then have "find (\<lambda>struct. s_name struct = T) (c_structs c) = None"
      "find (\<lambda>enumDef. e_name enumDef = T) (c_enums c) = None"
      by (auto simp: find_None_iff)
    then show ?thesis by (simp add: findTypeInContract_def)
  qed
  show ?thesis
    unfolding resolveSingleType_def Let_def q l firstSome_None_iff findTypeInFile_def
    using c by (auto simp: firstSome_None_iff)
qed

theorem resolveSingleType_qualifier_restricts_witness:
  "resolveSingleType ''X.T'' otherContractWorkspace = None
   \<and> resolveSingleType ''T'' otherContractWorkspace \<noteq> None"
proof -
  have "resolveSingleType (''X'' @ ''.'' @ ''T'') otherContractWorkspace = None"
    by (rule resolveSingleType_qualifier_restricts)
      (simp_all add: otherContractWorkspace_def exFile_def exContract_def exStruct_def)
  moreover have "resolveSingleType ''T'' otherContractWorkspace \<noteq> None"
    by (simp add: resolveSingleType_def localNameOf_def qualifierOf_def Let_def
        otherContractWorkspace_def exFile_def exContract_def findTypeInFile_def
        findTypeInContract_def skipsContract_def exStruct_def)
  ultimately show ?thesis by simp
qed

end
